theory Spec2Isabelle
  imports Main "HOL-Library.Multiset"
begin

section \<open>Data model of \<open>vecture/core.py\<close>\<close>

text \<open>
  A Python \<open>str\<close> is a sequence of Unicode code points; \<open>len\<close>, indexing and slicing
  count code points. Code points are natural numbers here, bytes are natural numbers
  below 256.
\<close>

type_synonym pystr = "nat list"
type_synonym bytes = "nat list"

definition str :: "string \<Rightarrow> pystr" where
  "str s = map of_char s"

text \<open>The tuples \<open>(start, end, text)\<close> that \<open>_find_matches\<close> collects.\<close>

type_synonym span = "nat \<times> nat \<times> pystr"

definition m_start :: "span \<Rightarrow> nat" where
  "m_start m = fst m"

definition m_end :: "span \<Rightarrow> nat" where
  "m_end m = fst (snd m)"

definition m_text :: "span \<Rightarrow> pystr" where
  "m_text m = snd (snd m)"

text \<open>
  One entry of \<open>key_data["restorations"]\<close>: the dictionary
  \<open>{"pos": ..., "text": ..., "len": ...}\<close>. A key may come from a file, so the two
  numbers are arbitrary Python integers.
\<close>

record restoration =
  r_pos :: int
  r_text :: pystr
  r_len :: int

text \<open>The dictionary \<open>{"version": ..., "hash": ..., "restorations": [...]}\<close>.\<close>

record key_data =
  k_version :: pystr
  k_hash :: pystr
  k_restorations :: "restoration list"

text \<open>
  Every failure of the core is a \<open>ValueError\<close> told apart by its message:
  "Integrity Violation: ..." is \<open>IntegrityError\<close>, "Corrupt Key: Index pos out of
  bounds." is \<open>CorruptKeyError pos\<close>, "Invalid Obfuscated Key: ..." and "Invalid Key
  File: ..." are \<open>KeyFormatError\<close>. \<open>UnicodeEncodeError\<close> is what
  \<open>.encode('utf-8')\<close> raises on a surrogate code point, \<open>UnicodeDecodeError\<close> what
  \<open>.decode('ascii')\<close> raises on a byte above 127; both are subclasses of
  \<open>ValueError\<close>. \<open>EscapedException\<close> is an exception of \<open>json.loads\<close> other than
  \<open>json.JSONDecodeError\<close> that \<open>deobfuscate_key\<close> does not catch and that leaves the
  call as it is (a \<open>RecursionError\<close>, or the plain \<open>ValueError\<close> of the integer
  digit limit).
\<close>

datatype error =
    UnicodeEncodeError
  | UnicodeDecodeError
  | IntegrityError
  | CorruptKeyError int
  | KeyFormatError
  | EscapedException

text \<open>
  The tables of the Unicode database that the \<open>re\<close> module consults: the word
  characters of \<open>\b\<close>, the decimal digits of \<open>\d\<close> and the comparison of a literal
  pattern character with a text character under \<open>re.IGNORECASE\<close>. They are
  parameters of the matcher.
\<close>

record unicode_db =
  is_word :: "nat \<Rightarrow> bool"
  is_decimal :: "nat \<Rightarrow> bool"
  same_letter :: "nat \<Rightarrow> nat \<Rightarrow> bool"

section \<open>Slicing\<close>

text \<open>\<open>t[i:j]\<close> for non-negative \<open>i\<close> and \<open>j\<close>; empty when \<open>j \<le> i\<close>.\<close>

definition slice :: "pystr \<Rightarrow> nat \<Rightarrow> nat \<Rightarrow> pystr" where
  "slice t i j = take (j - i) (drop i t)"

text \<open>\<open>t[k:]\<close> for any integer \<open>k\<close>: a negative \<open>k\<close> counts from the end.\<close>

definition slice_from :: "pystr \<Rightarrow> int \<Rightarrow> pystr" where
  "slice_from t k = (if 0 \<le> k then drop (nat k) t else drop (length t - nat (- k)) t)"

text \<open>\<open>t[:k]\<close> for a non-negative \<open>k\<close>.\<close>

definition slice_to :: "pystr \<Rightarrow> int \<Rightarrow> pystr" where
  "slice_to t k = take (nat k) t"

section \<open>The regular expressions of the matcher\<close>

text \<open>
  The fragment of \<open>re\<close> that the patterns of \<open>core.py\<close> use: a character class, the
  word boundary \<open>\b\<close>, concatenation, alternation and a greedy bounded repetition of a
  character class (\<open>{m,n}\<close>, \<open>{m,}\<close>, \<open>+\<close>).
\<close>

datatype regex =
    Eps
  | Chars "nat \<Rightarrow> bool"
  | Boundary "nat \<Rightarrow> bool"
  | Seq regex regex
  | Alt regex regex
  | Rep "nat \<Rightarrow> bool" nat "nat option"

definition at_boundary :: "(nat \<Rightarrow> bool) \<Rightarrow> pystr \<Rightarrow> nat \<Rightarrow> bool" where
  "at_boundary w t i \<longleftrightarrow>
     ((0 < i \<and> i \<le> length t \<and> w (t ! (i - 1))) \<noteq> (i < length t \<and> w (t ! i)))"

text \<open>
  \<open>ends r t i\<close>: the end positions of the matches of \<open>r\<close> that start at \<open>i\<close>, in the
  order in which the backtracking engine tries them. The first one is the match the
  engine reports.
\<close>

fun ends :: "regex \<Rightarrow> pystr \<Rightarrow> nat \<Rightarrow> nat list" where
  "ends Eps t i = [i]"
| "ends (Chars p) t i = (if i < length t \<and> p (t ! i) then [Suc i] else [])"
| "ends (Boundary w) t i = (if at_boundary w t i then [i] else [])"
| "ends (Seq a b) t i = concat (map (ends b t) (ends a t i))"
| "ends (Alt a b) t i = ends a t i @ ends b t i"
| "ends (Rep p lo hi) t i =
     (let n = length (takeWhile p (drop i t));
          m = (case hi of None \<Rightarrow> n | Some h \<Rightarrow> min n h)
      in map (\<lambda>k. i + k) (rev [lo..<Suc m]))"

text \<open>
  \<open>re.finditer\<close>: the leftmost match from the current position, then the scan goes on
  where that match ended. No pattern of this program matches the empty string; after an
  empty match the scan moves one position on.
\<close>

function finditer_from :: "regex \<Rightarrow> pystr \<Rightarrow> nat \<Rightarrow> (nat \<times> nat) list" where
  "finditer_from r t i =
     (if length t < i then []
      else (case ends r t i of
              [] \<Rightarrow> finditer_from r t (Suc i)
            | e # _ \<Rightarrow> (i, e) # finditer_from r t (if i < e then e else Suc i)))"
  by pat_completeness auto
termination
  by (relation "measure (\<lambda>(r, t, i). Suc (length t) - i)") auto

declare finditer_from.simps [simp del]

text \<open>The triples \<open>(m.start(), m.end(), m.group())\<close> of one \<open>re.finditer\<close> pass.\<close>

definition scan :: "regex \<Rightarrow> pystr \<Rightarrow> span list" where
  "scan r t = map (\<lambda>(s, e). (s, e, slice t s e)) (finditer_from r t 0)"

definition seqs :: "regex list \<Rightarrow> regex" where
  "seqs rs = foldr Seq rs Eps"

definition in_range :: "nat \<Rightarrow> nat \<Rightarrow> nat \<Rightarrow> bool" where
  "in_range lo hi c \<longleftrightarrow> lo \<le> c \<and> c \<le> hi"

definition ascii_digit :: "nat \<Rightarrow> bool" where
  "ascii_digit c = in_range 48 57 c"

definition ascii_upper :: "nat \<Rightarrow> bool" where
  "ascii_upper c = in_range 65 90 c"

definition ascii_lower :: "nat \<Rightarrow> bool" where
  "ascii_lower c = in_range 97 122 c"

definition one_of :: "string \<Rightarrow> nat \<Rightarrow> bool" where
  "one_of s c \<longleftrightarrow> c \<in> set (str s)"

definition lit :: "char \<Rightarrow> regex" where
  "lit ch = Chars (\<lambda>c. c = of_char ch)"

text \<open>\<open>r'\b(?:[0-9]{1,3}\.){3}[0-9]{1,3}\b'\<close>\<close>

definition ipv4_pattern :: "unicode_db \<Rightarrow> regex" where
  "ipv4_pattern U =
     (let g = Seq (Rep ascii_digit 1 (Some 3)) (lit CHR ''.'')
      in seqs [Boundary (is_word U), g, g, g, Rep ascii_digit 1 (Some 3), Boundary (is_word U)])"

text \<open>\<open>r'\b(?:\d{4}-\d{2}-\d{2}|\d{2}\.\d{2}\.\d{4}|\d{2}/\d{2}/\d{4})\b'\<close>\<close>

definition date_pattern :: "unicode_db \<Rightarrow> regex" where
  "date_pattern U =
     (let d2 = Rep (is_decimal U) 2 (Some 2); d4 = Rep (is_decimal U) 4 (Some 4)
      in seqs [Boundary (is_word U),
               Alt (seqs [d4, lit CHR ''-'', d2, lit CHR ''-'', d2])
                (Alt (seqs [d2, lit CHR ''.'', d2, lit CHR ''.'', d4])
                     (seqs [d2, lit CHR ''/'', d2, lit CHR ''/'', d4])),
               Boundary (is_word U)])"

text \<open>\<open>r'\b[A-Za-z0-9._%+-]+@[A-Za-z0-9.-]+\.[A-Z|a-z]{2,}\b'\<close>\<close>

definition email_pattern :: "unicode_db \<Rightarrow> regex" where
  "email_pattern U =
     seqs [Boundary (is_word U),
           Rep (\<lambda>c. ascii_upper c \<or> ascii_lower c \<or> ascii_digit c \<or> one_of ''._%+-'' c) 1 None,
           lit CHR ''@'',
           Rep (\<lambda>c. ascii_upper c \<or> ascii_lower c \<or> ascii_digit c \<or> one_of ''.-'' c) 1 None,
           lit CHR ''.'',
           Rep (\<lambda>c. ascii_upper c \<or> ascii_lower c \<or> one_of ''|'' c) 2 None,
           Boundary (is_word U)]"

text \<open>
  \<open>r'\b' + re.escape(word) + r'\b'\<close> compiled with \<open>re.IGNORECASE\<close>: every character
  of the word is a literal, compared without regard to case.
\<close>

definition word_pattern :: "unicode_db \<Rightarrow> pystr \<Rightarrow> regex" where
  "word_pattern U word =
     seqs ([Boundary (is_word U)] @ map (\<lambda>p. Chars (same_letter U p)) word @ [Boundary (is_word U)])"

text \<open>\<open>r'\b[A-Z][a-z]+\b'\<close>\<close>

definition caps_pattern :: "unicode_db \<Rightarrow> regex" where
  "caps_pattern U =
     seqs [Boundary (is_word U), Chars ascii_upper, Rep ascii_lower 1 None, Boundary (is_word U)]"

section \<open>\<open>_find_matches\<close>\<close>

text \<open>Phases 1 to 3: the candidate list, in discovery order.\<close>

definition candidates :: "unicode_db \<Rightarrow> pystr \<Rightarrow> pystr list \<Rightarrow> bool \<Rightarrow> span list" where
  "candidates U t custom_words redact_caps =
     concat (map (\<lambda>pattern. scan pattern t) [ipv4_pattern U, date_pattern U, email_pattern U])
     @ concat (map (\<lambda>word. if word = [] then [] else scan (word_pattern U word) t) custom_words)
     @ (if redact_caps then scan (caps_pattern U) t else [])"

text \<open>
  Conflict resolution: \<open>matches.sort(key=lambda x: x[0])\<close> is a stable sort, then the
  loop over \<open>matches[1:]\<close> compares each candidate with \<open>cleaned_matches[-1]\<close>.
\<close>

fun resolve_loop :: "span list \<Rightarrow> span list \<Rightarrow> span list" where
  "resolve_loop cleaned_matches [] = cleaned_matches"
| "resolve_loop cleaned_matches (m # ms) =
     (if m_start m < m_end (last cleaned_matches)
      then resolve_loop cleaned_matches ms
      else resolve_loop (cleaned_matches @ [m]) ms)"

definition resolve :: "span list \<Rightarrow> span list" where
  "resolve matches =
     (case sort_key m_start matches of
        [] \<Rightarrow> []
      | m0 # rest \<Rightarrow> resolve_loop [m0] rest)"

definition find_matches :: "unicode_db \<Rightarrow> pystr \<Rightarrow> pystr list \<Rightarrow> bool \<Rightarrow> span list" where
  "find_matches U t custom_words redact_caps = resolve (candidates U t custom_words redact_caps)"

section \<open>UTF-8 and the digest\<close>

text \<open>
  \<open>s.encode('utf-8')\<close>: one to four bytes per code point; a surrogate code point
  (\<open>0xD800\<close> to \<open>0xDFFF\<close>) raises \<open>UnicodeEncodeError\<close>, the value \<open>None\<close> here.
\<close>

definition utf8_char :: "nat \<Rightarrow> bytes option" where
  "utf8_char c =
     (if c < 0x80 then Some [c]
      else if c < 0x800 then Some [0xC0 + c div 64, 0x80 + c mod 64]
      else if 0xD800 \<le> c \<and> c \<le> 0xDFFF then None
      else if c < 0x10000 then Some [0xE0 + c div 4096, 0x80 + (c div 64) mod 64, 0x80 + c mod 64]
      else if c < 0x110000
        then Some [0xF0 + c div 262144, 0x80 + (c div 4096) mod 64, 0x80 + (c div 64) mod 64,
                   0x80 + c mod 64]
      else None)"

fun utf8_encode :: "pystr \<Rightarrow> bytes option" where
  "utf8_encode [] = Some []"
| "utf8_encode (c # cs) =
     (case utf8_char c of
        None \<Rightarrow> None
      | Some b \<Rightarrow> (case utf8_encode cs of None \<Rightarrow> None | Some bs \<Rightarrow> Some (b @ bs)))"

text \<open>
  \<open>hashlib.sha256(data).hexdigest()\<close> belongs to a library: \<open>redact\<close> and
  \<open>restore\<close> take the digest function as the parameter \<open>H\<close>, from bytes to the
  hexadecimal string.
\<close>

type_synonym digest = "bytes \<Rightarrow> pystr"

section \<open>\<open>redact\<close>\<close>

text \<open>
  \<open>random.choice(chars)\<close> draws an index below \<open>len(chars)\<close>. The draws of one call
  are read from a tape of natural numbers: draw number \<open>k\<close> is \<open>tape k\<close> reduced
  modulo the length of the alphabet.
\<close>

definition noise_chars :: pystr where
  "noise_chars = str ''XJ9#kL@!%&?''"

definition block_char :: nat where
  "block_char = 0x2588"

definition redacted_token :: pystr where
  "redacted_token = str ''[REDACTED]''"

primrec noise :: "(nat \<Rightarrow> nat) \<Rightarrow> nat \<Rightarrow> nat \<Rightarrow> pystr" where
  "noise tape k 0 = []"
| "noise tape k (Suc n) = (noise_chars ! (tape k mod length noise_chars)) # noise tape (Suc k) n"

text \<open>
  The \<open>if style == "BLACKOUT" ... elif style == "VECTURE_NOISE" ... else\<close> chain: the
  replacement and the number of draws used so far.
\<close>

definition substitute :: "pystr \<Rightarrow> pystr \<Rightarrow> (nat \<Rightarrow> nat) \<Rightarrow> nat \<Rightarrow> pystr \<times> nat" where
  "substitute style original tape k =
     (if style = str ''BLACKOUT'' then (replicate (length original) block_char, k)
      else if style = str ''VECTURE_NOISE'' then (noise tape k (length original), k + length original)
      else (redacted_token, k))"

text \<open>
  The loop \<open>for start, end, original in matches\<close>. The state is \<open>result_text\<close> (a list
  of pieces), \<open>key_restorations\<close>, \<open>current_idx\<close> and the number of random draws made.
\<close>

type_synonym redact_state = "pystr list \<times> restoration list \<times> nat \<times> nat"

fun redact_loop ::
  "pystr \<Rightarrow> pystr \<Rightarrow> (nat \<Rightarrow> nat) \<Rightarrow> span list \<Rightarrow> redact_state \<Rightarrow> redact_state" where
  "redact_loop t style tape [] st = st"
| "redact_loop t style tape (m # ms) (result_text, key_restorations, current_idx, k) =
     (let result_text1 = result_text @ [slice t current_idx (m_start m)];
          replacement = fst (substitute style (m_text m) tape k);
          current_len = sum_list (map length result_text1)
      in redact_loop t style tape ms
           (result_text1 @ [replacement],
            key_restorations @
              [\<lparr>r_pos = int current_len, r_text = m_text m, r_len = int (length replacement)\<rparr>],
            m_end m,
            snd (substitute style (m_text m) tape k)))"

definition redact ::
  "unicode_db \<Rightarrow> digest \<Rightarrow> pystr \<Rightarrow> pystr \<Rightarrow> pystr list \<Rightarrow> bool \<Rightarrow> (nat \<Rightarrow> nat)
     \<Rightarrow> error + (pystr \<times> key_data)" where
  "redact U H t style custom_words redact_caps tape =
     (let matches = find_matches U t custom_words redact_caps;
          st = redact_loop t style tape matches ([], [], 0, 0);
          result_text = fst st @ [drop (fst (snd (snd st))) t];
          final_redacted_text = concat result_text
      in case utf8_encode final_redacted_text of
           None \<Rightarrow> Inl UnicodeEncodeError
         | Some b \<Rightarrow>
             Inr (final_redacted_text,
                  \<lparr>k_version = str ''1.0'', k_hash = H b,
                   k_restorations = fst (snd st)\<rparr>))"

section \<open>\<open>restore\<close>\<close>

text \<open>The loop \<open>for item in restorations\<close> over the current \<open>result\<close>.\<close>

fun restore_loop :: "restoration list \<Rightarrow> pystr \<Rightarrow> error + pystr" where
  "restore_loop [] result = Inr result"
| "restore_loop (item # items) result =
     (if r_pos item < 0 \<or> r_pos item + r_len item > int (length result)
      then Inl (CorruptKeyError (r_pos item))
      else restore_loop items
             (slice_to result (r_pos item) @ r_text item
              @ slice_from result (r_pos item + r_len item)))"

text \<open>
  \<open>restorations.sort(key=lambda x: x["pos"], reverse=True)\<close> sorts the list object
  stored in the key, in place; a sort with \<open>reverse=True\<close> is stable, so it is the
  stable ascending sort by the negated position. \<open>restore\<close> returns its result (or
  the exception) together with the key as the call leaves it.
\<close>

definition restore :: "digest \<Rightarrow> pystr \<Rightarrow> key_data \<Rightarrow> (error + pystr) \<times> key_data" where
  "restore H redacted_text key =
     (case utf8_encode redacted_text of
        None \<Rightarrow> (Inl UnicodeEncodeError, key)
      | Some b \<Rightarrow>
          if H b \<noteq> k_hash key then (Inl IntegrityError, key)
          else (let restorations = sort_key (\<lambda>x. - r_pos x) (k_restorations key)
                in (restore_loop restorations redacted_text,
                    key\<lparr>k_restorations := restorations\<rparr>)))"

section \<open>The key codec\<close>

text \<open>
  \<open>json\<close>, \<open>zlib\<close> and \<open>base64\<close> are libraries; the codec takes their functions as
  parameters. \<open>'j\<close> is the type of the values that \<open>json\<close> reads and writes.

  With the marker present every step runs inside \<open>try ... except Exception\<close>, so
  there a decoder returns \<open>None\<close> where the library raises, whatever it raises.
  Without the marker \<open>json.loads\<close> runs inside \<open>try ... except json.JSONDecodeError\<close>,
  so its outcome on a string is one of three: the value read, a
  \<open>json.JSONDecodeError\<close>, or another exception (\<open>json.loads\<close> raises
  \<open>RecursionError\<close> on a deeply nested text and a plain \<open>ValueError\<close> on an integer
  beyond the digit limit).
\<close>

datatype 'j loaded = Loaded 'j | JSONDecodeError | OtherException

record 'j codec_libs =
  json_dumps :: "'j \<Rightarrow> pystr"
  json_loads :: "pystr \<Rightarrow> 'j loaded"
  json_loads_bytes :: "bytes \<Rightarrow> 'j option"
  zlib_compress :: "bytes \<Rightarrow> bytes"
  zlib_decompress :: "bytes \<Rightarrow> bytes option"
  b64encode :: "bytes \<Rightarrow> bytes"
  b64decode :: "pystr \<Rightarrow> bytes option"

definition marker :: pystr where
  "marker = str ''VECTURE_KEY:''"

text \<open>\<open>bytes.decode('ascii')\<close>\<close>

definition ascii_decode :: "bytes \<Rightarrow> pystr option" where
  "ascii_decode b = (if list_all (\<lambda>x. x < 128) b then Some b else None)"

text \<open>\<open>key_content.replace("VECTURE_KEY:", "")\<close>: every occurrence goes, left to right.\<close>

function remove_marker :: "pystr \<Rightarrow> pystr" where
  "remove_marker [] = []"
| "remove_marker (c # cs) =
     (if take (length marker) (c # cs) = marker
      then remove_marker (drop (length marker) (c # cs))
      else c # remove_marker cs)"
  by pat_completeness auto
termination
  by (relation "measure length") (auto simp: marker_def str_def)

definition obfuscate_key :: "'j codec_libs \<Rightarrow> 'j \<Rightarrow> error + pystr" where
  "obfuscate_key L key =
     (let json_str = json_dumps L key
      in case utf8_encode json_str of
           None \<Rightarrow> Inl UnicodeEncodeError
         | Some raw \<Rightarrow>
             (let compressed = zlib_compress L raw
              in case ascii_decode (b64encode L compressed) of
                   None \<Rightarrow> Inl UnicodeDecodeError
                 | Some encoded \<Rightarrow> Inr (marker @ encoded)))"

definition deobfuscate_key :: "'j codec_libs \<Rightarrow> pystr \<Rightarrow> error + 'j" where
  "deobfuscate_key L key_content =
     (if take (length marker) key_content = marker
      then (case b64decode L (remove_marker key_content) of
              None \<Rightarrow> Inl KeyFormatError
            | Some decoded \<Rightarrow>
                (case zlib_decompress L decoded of
                   None \<Rightarrow> Inl KeyFormatError
                 | Some decompressed \<Rightarrow>
                     (case json_loads_bytes L decompressed of
                        None \<Rightarrow> Inl KeyFormatError
                      | Some key \<Rightarrow> Inr key)))
      else (case json_loads L key_content of
              Loaded key \<Rightarrow> Inr key
            | JSONDecodeError \<Rightarrow> Inl KeyFormatError
            | OtherException \<Rightarrow> Inl EscapedException))"

section \<open>Properties: auxiliary notions\<close>

text \<open>
  The order of a resolved span set: the earlier span starts strictly before the later
  one and ends no later than the later one starts.
\<close>

definition disjoint_order :: "span \<Rightarrow> span \<Rightarrow> bool" where
  "disjoint_order a b \<longleftrightarrow> m_start a < m_start b \<and> m_end a \<le> m_start b"

text \<open>The least number of characters that a match of a pattern consumes.\<close>

fun minlen :: "regex \<Rightarrow> nat" where
  "minlen Eps = 0"
| "minlen (Chars p) = 1"
| "minlen (Boundary w) = 0"
| "minlen (Seq a b) = minlen a + minlen b"
| "minlen (Alt a b) = min (minlen a) (minlen b)"
| "minlen (Rep p lo hi) = lo"

text \<open>
  The Span invariant for the triples of the matcher: a non-empty interval inside the
  text, together with the substring it covers.
\<close>

definition valid_span :: "pystr \<Rightarrow> span \<Rightarrow> bool" where
  "valid_span t m \<longleftrightarrow>
     m_start m < m_end m \<and> m_end m \<le> length t \<and> m_text m = slice t (m_start m) (m_end m)"

text \<open>What the three styles promise of a replacement for a given original.\<close>

definition style_law :: "pystr \<Rightarrow> pystr \<Rightarrow> pystr \<Rightarrow> bool" where
  "style_law style tok original \<longleftrightarrow>
     (if style = str ''BLACKOUT'' then tok = replicate (length original) block_char
      else if style = str ''VECTURE_NOISE''
        then length tok = length original \<and> list_all (\<lambda>c. c \<in> set noise_chars) tok
      else tok = redacted_token)"

text \<open>The part of the redacted text that a restoration record points at.\<close>

definition recorded_token :: "pystr \<Rightarrow> restoration \<Rightarrow> pystr" where
  "recorded_token rt r = slice rt (nat (r_pos r)) (nat (r_pos r + r_len r))"

text \<open>
  A record and the span it was made for: the record lies inside the redacted text, it
  keeps the original, and what it points at is the replacement of the style.
\<close>

definition token_at :: "pystr \<Rightarrow> pystr \<Rightarrow> restoration \<Rightarrow> span \<Rightarrow> bool" where
  "token_at style rt r m \<longleftrightarrow>
     0 \<le> r_pos r \<and> r_pos r + r_len r \<le> int (length rt)
     \<and> r_len r = int (length (recorded_token rt r))
     \<and> r_text r = m_text m
     \<and> style_law style (recorded_token rt r) (m_text m)"

text \<open>
  The tables on the ASCII range, where every version of the Unicode database agrees:
  the word characters are the letters, the digits and the underscore, the decimal
  digits are \<open>0\<close> to \<open>9\<close>, and two letters are the same without regard to case when
  their lower-case forms are equal.
\<close>

definition ascii_word :: "nat \<Rightarrow> bool" where
  "ascii_word c \<longleftrightarrow> ascii_upper c \<or> ascii_lower c \<or> ascii_digit c \<or> c = 95"

definition ascii_fold :: "nat \<Rightarrow> nat" where
  "ascii_fold c = (if ascii_upper c then c + 32 else c)"

text \<open>A database that knows the ASCII range only, for concrete runs.\<close>

definition ascii_db :: unicode_db where
  "ascii_db = \<lparr>is_word = ascii_word, is_decimal = ascii_digit,
               same_letter = (\<lambda>p c. ascii_fold p = ascii_fold c)\<rparr>"

text \<open>A database that is right about \<open>\b\<close> and \<open>\d\<close> on the ASCII range.\<close>

definition ascii_faithful :: "unicode_db \<Rightarrow> bool" where
  "ascii_faithful U \<longleftrightarrow>
     (\<forall>c < 128. is_word U c = ascii_word c \<and> is_decimal U c = ascii_digit c)"

text \<open>The characters that \<open>base64.b64encode\<close> writes.\<close>

definition b64_alphabet :: "nat \<Rightarrow> bool" where
  "b64_alphabet c \<longleftrightarrow> ascii_upper c \<or> ascii_lower c \<or> ascii_digit c \<or> one_of ''+/='' c"

text \<open>
  A key and libraries that know this one key, for a concrete run of the codec: the
  serialization is shortened to \<open>{}\<close>, compression puts one byte in front, and
  \<open>eHt9\<close> is the base64 form of the three bytes \<open>x{}\<close>. As \<open>json.loads\<close> does, the
  parser gives up with another exception on more than a thousand nested opening
  brackets, and reports a decoding error on any other text.
\<close>

definition sample_key :: key_data where
  "sample_key = \<lparr>k_version = str ''1.0'', k_hash = str ''00'', k_restorations = []\<rparr>"

definition sample_libs :: "key_data codec_libs" where
  "sample_libs =
     \<lparr>json_dumps = (\<lambda>k. str ''{}''),
      json_loads =
        (\<lambda>s. if s = str ''{}'' then Loaded sample_key
             else if 1000 < length s \<and> list_all (\<lambda>c. c = 91) s then OtherException
             else JSONDecodeError),
      json_loads_bytes = (\<lambda>b. if b = str ''{}'' then Some sample_key else None),
      zlib_compress = (\<lambda>b. 120 # b),
      zlib_decompress = (\<lambda>b. case b of [] \<Rightarrow> None | x # r \<Rightarrow> if x = 120 then Some r else None),
      b64encode = (\<lambda>b. if b = str ''x{}'' then str ''eHt9'' else []),
      b64decode = (\<lambda>s. if s = str ''eHt9'' then Some (str ''x{}'') else None)\<rparr>"

text \<open>
  The resolver in the words of the specification: walk the sorted candidates, always
  keep the first one, and drop a later one exactly when its start is strictly less than
  the end of the last kept span.
\<close>

definition keep_or_drop :: "span list \<Rightarrow> span \<Rightarrow> span list" where
  "keep_or_drop kept m =
     (if kept \<noteq> [] \<and> m_start m < m_end (last kept) then kept else kept @ [m])"

definition first_claim_wins :: "span list \<Rightarrow> span list" where
  "first_claim_wins sorted_candidates = foldl keep_or_drop [] sorted_candidates"




section \<open>The conflict resolver\<close>

lemma resolve_loop_successively:
  "cleaned \<noteq> [] \<Longrightarrow> successively (\<lambda>a b. m_end a \<le> m_start b) cleaned \<Longrightarrow>
   successively (\<lambda>a b. m_end a \<le> m_start b) (resolve_loop cleaned ms)"
  by (induction ms arbitrary: cleaned) (auto simp: successively_append_iff)

lemma resolve_successively: "successively (\<lambda>a b. m_end a \<le> m_start b) (resolve cs)"
  by (simp add: resolve_def resolve_loop_successively split: list.split)

lemma sorted_wrt_last:
  "sorted_wrt R xs \<Longrightarrow> xs \<noteq> [] \<Longrightarrow> a \<in> set xs \<Longrightarrow> a = last xs \<or> R a (last xs)"
  by (induction xs) (auto split: if_splits)

lemma resolve_loop_sorted:
  "cleaned \<noteq> [] \<Longrightarrow> sorted_wrt disjoint_order cleaned \<Longrightarrow>
   \<forall>m \<in> set cleaned \<union> set ms. m_start m < m_end m \<Longrightarrow>
   sorted_wrt disjoint_order (resolve_loop cleaned ms)"
proof (induction ms arbitrary: cleaned)
  case Nil
  then show ?case by simp
next
  case (Cons m ms)
  show ?case
  proof (cases "m_start m < m_end (last cleaned)")
    case True
    with Cons show ?thesis by simp
  next
    case False
    have "disjoint_order a m" if "a \<in> set cleaned" for a
    proof -
      have l: "m_start (last cleaned) < m_end (last cleaned)"
        using Cons.prems by simp
      from sorted_wrt_last [OF Cons.prems(2) Cons.prems(1) that]
      show ?thesis
        using False l Cons.prems(3) that by (auto simp: disjoint_order_def)
    qed
    then have "sorted_wrt disjoint_order (cleaned @ [m])"
      using Cons.prems by (simp add: sorted_wrt_append)
    moreover have "\<forall>x \<in> set (cleaned @ [m]) \<union> set ms. m_start x < m_end x"
      using Cons.prems by auto
    ultimately have "sorted_wrt disjoint_order (resolve_loop (cleaned @ [m]) ms)"
      by (intro Cons.IH) auto
    with False show ?thesis by simp
  qed
qed

lemma resolve_sorted:
  assumes "\<forall>m \<in> set cs. m_start m < m_end m"
  shows "sorted_wrt disjoint_order (resolve cs)"
proof (cases "sort_key m_start cs")
  case Nil
  then show ?thesis by (simp add: resolve_def)
next
  case (Cons m0 rest)
  have "set (m0 # rest) = set cs"
    using Cons [symmetric] by simp
  with assms have "\<forall>m \<in> set [m0] \<union> set rest. m_start m < m_end m"
    by auto
  then have "sorted_wrt disjoint_order (resolve_loop [m0] rest)"
    by (intro resolve_loop_sorted) auto
  with Cons show ?thesis by (simp add: resolve_def)
qed

lemma resolve_loop_snoc:
  "resolve_loop cl (ms @ [m]) =
     (if m_start m < m_end (last (resolve_loop cl ms)) then resolve_loop cl ms
      else resolve_loop cl ms @ [m])"
  by (induction ms arbitrary: cl) auto

lemma insort_key_snoc:
  "f x \<le> f c \<Longrightarrow> insort_key f x (ys @ [c]) = insort_key f x ys @ [c]"
  by (induction ys) auto

lemma sort_key_snoc:
  "\<forall>x \<in> set xs. f x \<le> f c \<Longrightarrow> sort_key f (xs @ [c]) = sort_key f xs @ [c]"
  by (induction xs) (auto simp: insort_key_snoc)

lemma resolve_snoc:
  assumes "cs \<noteq> []" and "\<forall>x \<in> set cs. m_start x \<le> m_start c"
  shows "resolve (cs @ [c]) =
     (if m_start c < m_end (last (resolve cs)) then resolve cs else resolve cs @ [c])"
proof -
  obtain m0 rest where s: "sort_key m_start cs = m0 # rest"
    using assms(1) by (cases "sort_key m_start cs") (auto dest: arg_cong [where f = length])
  have "sort_key m_start (cs @ [c]) = m0 # (rest @ [c])"
    using sort_key_snoc [OF assms(2)] s by simp
  then show ?thesis
    using s by (simp add: resolve_def resolve_loop_snoc)
qed

lemma resolve_loop_subset: "set (resolve_loop cl ms) \<subseteq> set cl \<union> set ms"
proof (induction ms arbitrary: cl)
  case Nil
  then show ?case by simp
next
  case (Cons m ms)
  show ?case
    using Cons [of cl] Cons [of "cl @ [m]"] by auto
qed

lemma resolve_subset: "set (resolve cs) \<subseteq> set cs"
proof (cases "sort_key m_start cs")
  case Nil
  then show ?thesis by (simp add: resolve_def)
next
  case (Cons m0 rest)
  have "set (m0 # rest) = set cs"
    using Cons [symmetric] by simp
  then show ?thesis
    using resolve_loop_subset [of "[m0]" rest] Cons by (auto simp: resolve_def)
qed

section \<open>\<open>restore\<close>: failures, order of the records, the key after the call\<close>

lemma utf8_encode_ascii: "list_all (\<lambda>c. c < 128) t \<Longrightarrow> utf8_encode t = Some t"
  by (induction t) (auto simp: utf8_char_def)


















lemma distinct_set_singleton:
  assumes "distinct xs" and "set xs = {k}"
  shows "xs = [k]"
proof (cases xs)
  case Nil
  with assms(2) show ?thesis by simp
next
  case (Cons a ys)
  with assms(2) have "a = k" by auto
  moreover have "set ys \<subseteq> {k}" using Cons assms(2) by auto
  moreover have "k \<notin> set ys" using Cons assms(1) \<open>a = k\<close> by simp
  ultimately have "ys = []" by (cases ys) auto
  with Cons \<open>a = k\<close> show ?thesis by simp
qed

lemma sort_key_distinct_perm:
  assumes "mset ys = mset xs" and "distinct (map f xs)"
  shows "sort_key f ys = sort_key f xs"
proof (rule properties_for_sort_key)
  show "mset (sort_key f xs) = mset ys"
    using assms(1) by simp
  show "sorted (map f (sort_key f xs))"
    by simp
  fix k
  assume "k \<in> set (sort_key f xs)"
  then have k: "k \<in> set xs" by simp
  have dx: "distinct xs"
    using assms(2) by (simp add: distinct_map)
  have inj: "inj_on f (set xs)"
    using assms(2) by (simp add: distinct_map)
  have dy: "distinct ys"
    using assms(1) dx by (metis mset_eq_imp_distinct_iff)
  have sy: "set ys = set xs"
    using assms(1) by (rule mset_eq_setD)
  have "{x \<in> set zs. f k = f x} = {k}" if "set zs = set xs" for zs
    using that k inj by (auto dest: inj_onD)
  then have a: "set (filter (\<lambda>x. f k = f x) ys) = {k}"
    and b: "set (filter (\<lambda>x. f k = f x) (sort_key f xs)) = {k}"
    using sy by simp_all
  have "distinct (filter (\<lambda>x. f k = f x) ys)" "distinct (filter (\<lambda>x. f k = f x) (sort_key f xs))"
    using dy dx by simp_all
  with a b have "filter (\<lambda>x. f k = f x) ys = [k]"
    "filter (\<lambda>x. f k = f x) (sort_key f xs) = [k]"
    by (auto intro: distinct_set_singleton)
  then show "filter (\<lambda>x. f k = f x) (sort_key f xs) = filter (\<lambda>x. f k = f x) ys"
    by simp
qed

text \<open>
  C5 (as amended). When the positions of the records are pairwise distinct, the result
  of \<open>restore\<close> (text or exception) does not depend on the order in which the key stores
  them.
\<close>

theorem restore_order_independent:
  "mset rs' = mset rs \<and> distinct (map r_pos rs) \<longrightarrow>
     fst (restore H t (key\<lparr>k_restorations := rs'\<rparr>))
       = fst (restore H t (key\<lparr>k_restorations := rs\<rparr>))"
proof
  assume a: "mset rs' = mset rs \<and> distinct (map r_pos rs)"
  have "inj_on uminus (r_pos ` set rs)"
    by (simp add: inj_on_def)
  then have "distinct (map (\<lambda>x. - r_pos x) rs)"
    using a by (simp add: distinct_map comp_inj_on_iff inj_on_def)
  with a have "sort_key (\<lambda>x. - r_pos x) rs' = sort_key (\<lambda>x. - r_pos x) rs"
    by (intro sort_key_distinct_perm) auto
  then show "fst (restore H t (key\<lparr>k_restorations := rs'\<rparr>))
      = fst (restore H t (key\<lparr>k_restorations := rs\<rparr>))"
    by (simp add: restore_def Let_def split: option.splits)
qed

text \<open>
  C5 as stated fails: the sort is stable, so two records with the same position are
  applied in their stored order, and swapping them changes the result.
\<close>

theorem restore_order_counterexample:
  "\<forall>H. fst (restore H (str ''ab'')
        \<lparr>k_version = str ''1.0'', k_hash = H (str ''ab''),
         k_restorations = [\<lparr>r_pos = 0, r_text = str ''X'', r_len = 0\<rparr>,
                           \<lparr>r_pos = 0, r_text = str ''Y'', r_len = 0\<rparr>]\<rparr>) = Inr (str ''YXab'')
     \<and> fst (restore H (str ''ab'')
        \<lparr>k_version = str ''1.0'', k_hash = H (str ''ab''),
         k_restorations = [\<lparr>r_pos = 0, r_text = str ''Y'', r_len = 0\<rparr>,
                           \<lparr>r_pos = 0, r_text = str ''X'', r_len = 0\<rparr>]\<rparr>) = Inr (str ''XYab'')"
  by (simp add: restore_def str_def utf8_char_def slice_to_def slice_from_def)

theorem restore_order_independent_witness:
  "\<forall>H. mset [\<lparr>r_pos = 3, r_text = str ''Y'', r_len = 1\<rparr>, \<lparr>r_pos = 0, r_text = str ''X'', r_len = 1\<rparr>]
        = mset [\<lparr>r_pos = 0, r_text = str ''X'', r_len = 1\<rparr>, \<lparr>r_pos = 3, r_text = str ''Y'', r_len = 1\<rparr>]
     \<and> distinct (map r_pos [\<lparr>r_pos = 0, r_text = str ''X'', r_len = 1\<rparr>, \<lparr>r_pos = 3, r_text = str ''Y'', r_len = 1\<rparr>])
     \<and> fst (restore H (str ''a--b'')
          \<lparr>k_version = str ''1.0'', k_hash = H (str ''a--b''),
           k_restorations = [\<lparr>r_pos = 3, r_text = str ''Y'', r_len = 1\<rparr>, \<lparr>r_pos = 0, r_text = str ''X'', r_len = 1\<rparr>]\<rparr>)
        = Inr (str ''X--Y'')
     \<and> fst (restore H (str ''a--b'')
          \<lparr>k_version = str ''1.0'', k_hash = H (str ''a--b''),
           k_restorations = [\<lparr>r_pos = 0, r_text = str ''X'', r_len = 1\<rparr>, \<lparr>r_pos = 3, r_text = str ''Y'', r_len = 1\<rparr>]\<rparr>)
        = Inr (str ''X--Y'')"
  using restore_order_independent
    [of "[\<lparr>r_pos = 3, r_text = str ''Y'', r_len = 1\<rparr>, \<lparr>r_pos = 0, r_text = str ''X'', r_len = 1\<rparr>]"
        "[\<lparr>r_pos = 0, r_text = str ''X'', r_len = 1\<rparr>, \<lparr>r_pos = 3, r_text = str ''Y'', r_len = 1\<rparr>]"
        _ "str ''a--b''" "\<lparr>k_version = str ''1.0'', k_hash = _ (str ''a--b''), k_restorations = []\<rparr>"]
  by (simp add: restore_def str_def utf8_char_def slice_to_def slice_from_def)

text \<open>
  C6. \<open>restorations.sort(...)\<close> sorts the list held by the caller's key: after
  \<open>restore\<close> returns, the key of the worked example stores its two records in the
  opposite order.
\<close>

theorem restore_sorts_key_in_place:
  "\<forall>H. snd (restore H (str ''Contact [REDACTED] on [REDACTED].'')
        \<lparr>k_version = str ''1.0'', k_hash = H (str ''Contact [REDACTED] on [REDACTED].''),
         k_restorations = [\<lparr>r_pos = 8, r_text = str ''john@example.com'', r_len = 10\<rparr>,
                           \<lparr>r_pos = 22, r_text = str ''2023-01-05'', r_len = 10\<rparr>]\<rparr>)
     = \<lparr>k_version = str ''1.0'', k_hash = H (str ''Contact [REDACTED] on [REDACTED].''),
         k_restorations = [\<lparr>r_pos = 22, r_text = str ''2023-01-05'', r_len = 10\<rparr>,
                           \<lparr>r_pos = 8, r_text = str ''john@example.com'', r_len = 10\<rparr>]\<rparr>"
  by (simp add: restore_def str_def utf8_char_def)

section \<open>The spans of the matcher and the loop of \<open>redact\<close>\<close>

lemma ends_bounds:
  "e \<in> set (ends r t i) \<Longrightarrow> i \<le> length t \<Longrightarrow> i + minlen r \<le> e \<and> e \<le> length t"
proof (induction r arbitrary: i e)
  case (Seq a b)
  from Seq.prems(1) obtain j where j: "j \<in> set (ends a t i)" "e \<in> set (ends b t j)"
    by auto
  from Seq.IH(1) [OF j(1) Seq.prems(2)] have a: "i + minlen a \<le> j" "j \<le> length t"
    by simp_all
  from Seq.IH(2) [OF j(2) a(2)] have "j + minlen b \<le> e" "e \<le> length t"
    by simp_all
  with a show ?case by simp
next
  case (Rep p lo hi)
  define n where "n = length (takeWhile p (drop i t))"
  have n: "n \<le> length t - i"
    unfolding n_def by (metis length_drop length_takeWhile_le)
  from Rep.prems(1) obtain k where k: "e = i + k" "lo \<le> k" "k \<le> n"
    by (auto simp: Let_def n_def split: option.splits)
  with n Rep.prems(2) show ?case by simp
next
  case (Alt a b)
  from Alt.prems(1) have "e \<in> set (ends a t i) \<or> e \<in> set (ends b t i)"
    by simp
  then show ?case
    using Alt.IH(1) [of e i] Alt.IH(2) [of e i] Alt.prems(2) by auto
qed (auto split: if_splits)

lemma finditer_from_bounds:
  "(s, e) \<in> set (finditer_from r t i) \<Longrightarrow> s + minlen r \<le> e \<and> e \<le> length t"
proof (induction r t i rule: finditer_from.induct)
  case (1 r t i)
  show ?case
  proof (cases "length t < i")
    case True
    with "1.prems" show ?thesis by (simp add: finditer_from.simps)
  next
    case False
    show ?thesis
    proof (cases "ends r t i")
      case Nil
      with False "1.prems" have "(s, e) \<in> set (finditer_from r t (Suc i))"
        by (simp add: finditer_from.simps [of r t i])
      from "1.IH"(1) [OF False Nil this] show ?thesis .
    next
      case (Cons e0 es)
      from False "1.prems" Cons
      consider "(s, e) = (i, e0)" | "(s, e) \<in> set (finditer_from r t (if i < e0 then e0 else Suc i))"
        by (auto simp: finditer_from.simps [of r t i])
      then show ?thesis
      proof cases
        case 1
        have "e0 \<in> set (ends r t i)" using Cons by simp
        from ends_bounds [OF this] False 1 show ?thesis by simp
      next
        case 2
        from "1.IH"(2) [OF False Cons this] show ?thesis .
      qed
    qed
  qed
qed

lemma scan_valid:
  assumes "0 < minlen r" and "m \<in> set (scan r t)"
  shows "valid_span t m"
proof -
  from assms(2) obtain s e where "(s, e) \<in> set (finditer_from r t 0)" "m = (s, e, slice t s e)"
    by (auto simp: scan_def)
  with finditer_from_bounds [of s e r t 0] assms(1) show ?thesis
    by (simp add: valid_span_def m_start_def m_end_def m_text_def)
qed

lemma minlen_seqs: "minlen (seqs rs) = sum_list (map minlen rs)"
  by (induction rs) (simp_all add: seqs_def)

lemma minlen_patterns:
  "0 < minlen (ipv4_pattern U)" "0 < minlen (date_pattern U)" "0 < minlen (email_pattern U)"
  "0 < minlen (caps_pattern U)"
  by (simp_all add: minlen_seqs ipv4_pattern_def date_pattern_def email_pattern_def
      caps_pattern_def lit_def Let_def)

lemma minlen_word_pattern: "word \<noteq> [] \<Longrightarrow> 0 < minlen (word_pattern U word)"
  by (cases word) (simp_all add: minlen_seqs word_pattern_def)

lemma candidates_valid: "m \<in> set (candidates U t ws caps) \<Longrightarrow> valid_span t m"
  by (auto simp: candidates_def minlen_patterns minlen_word_pattern dest: scan_valid [rotated] split: if_splits)

lemma length_noise: "length (noise tape k n) = n"
  by (induction n arbitrary: k) auto

lemma set_noise: "set (noise tape k n) \<subseteq> set noise_chars"
proof (induction n arbitrary: k)
  case 0
  then show ?case by simp
next
  case (Suc n)
  have "0 < length noise_chars"
    by (simp add: noise_chars_def str_def)
  then have "noise_chars ! (tape k mod length noise_chars) \<in> set noise_chars"
    by simp
  with Suc show ?case by auto
qed

lemma substitute_law: "style_law style (fst (substitute style original tape k)) original"
  using set_noise [of tape k "length original"]
  by (auto simp: style_law_def substitute_def length_noise list_all_iff)

lemma substitute_nonempty: "original \<noteq> [] \<Longrightarrow> fst (substitute style original tape k) \<noteq> []"
  using length_noise [of tape k "length original"]
  by (auto simp: substitute_def redacted_token_def str_def)

lemma find_matches_valid: "m \<in> set (find_matches U t ws caps) \<Longrightarrow> valid_span t m"
  using resolve_subset [of "candidates U t ws caps"] candidates_valid [of m U t ws caps]
  by (auto simp: find_matches_def)

lemma find_matches_sorted: "sorted_wrt disjoint_order (find_matches U t ws caps)"
  unfolding find_matches_def
  by (rule resolve_sorted) (auto dest: candidates_valid simp: valid_span_def)

lemma restore_loop_append:
  "restore_loop (xs @ ys) r =
     (case restore_loop xs r of Inl e \<Rightarrow> Inl e | Inr r' \<Rightarrow> restore_loop ys r')"
  by (induction xs arbitrary: r) auto

lemma slice_join:
  assumes "cur \<le> s" "s \<le> e"
  shows "slice t cur s @ slice t s e @ drop e t = drop cur t"
proof -
  have a: "drop s t = drop (s - cur) (drop cur t)" using assms(1) by simp
  have b: "drop e t = drop (e - s) (drop s t)" using assms(2) by simp
  have "slice t s e @ drop e t = drop s t"
    unfolding slice_def b by (rule append_take_drop_id)
  moreover have "slice t cur s @ drop s t = drop cur t"
    unfolding slice_def a by (rule append_take_drop_id)
  ultimately show ?thesis by simp
qed

lemma length_slice: "j \<le> length t \<Longrightarrow> length (slice t i j) = j - i"
  by (auto simp: slice_def)

lemma redact_loop_restore:
  "sorted_wrt disjoint_order ms \<Longrightarrow> (\<forall>m \<in> set ms. valid_span t m \<and> cur \<le> m_start m) \<Longrightarrow>
   \<exists>new. fst (snd (redact_loop t style tape ms (res, keys, cur, k))) = keys @ new
     \<and> sorted_wrt (<) (map r_pos new)
     \<and> (\<forall>r \<in> set new. int (length (concat res)) \<le> r_pos r)
     \<and> restore_loop (rev new)
          (concat (fst (redact_loop t style tape ms (res, keys, cur, k)))
           @ drop (fst (snd (snd (redact_loop t style tape ms (res, keys, cur, k))))) t)
        = Inr (concat res @ drop cur t)"
proof (induction ms arbitrary: res keys cur k)
  case Nil
  show ?case by simp
next
  case (Cons m ms)
  define pre where "pre = slice t cur (m_start m)"
  define tok where "tok = fst (substitute style (m_text m) tape k)"
  define k' where "k' = snd (substitute style (m_text m) tape k)"
  define rec where
    "rec = \<lparr>r_pos = int (length (concat res) + length pre), r_text = m_text m,
            r_len = int (length tok)\<rparr>"
  define res1 where "res1 = (res @ [pre]) @ [tok]"
  define st where "st = redact_loop t style tape ms (res1, keys @ [rec], m_end m, k')"
  have step: "redact_loop t style tape (m # ms) (res, keys, cur, k) = st"
    by (simp add: st_def res1_def rec_def k'_def tok_def pre_def Let_def length_concat)
  have v: "m_start m < m_end m" "m_end m \<le> length t" "m_text m = slice t (m_start m) (m_end m)"
    "cur \<le> m_start m"
    using Cons.prems(2) by (simp_all add: valid_span_def)
  have rest: "\<forall>m' \<in> set ms. valid_span t m' \<and> m_end m \<le> m_start m'"
    using Cons.prems by (auto simp: disjoint_order_def)
  have srt: "sorted_wrt disjoint_order ms"
    using Cons.prems(1) by simp
  from Cons.IH [OF srt rest, of res1 "keys @ [rec]" k']
  obtain new where new:
    "fst (snd st) = (keys @ [rec]) @ new"
    "sorted_wrt (<) (map r_pos new)"
    "\<forall>r \<in> set new. int (length (concat res1)) \<le> r_pos r"
    "restore_loop (rev new) (concat (fst st) @ drop (fst (snd (snd st))) t)
       = Inr (concat res1 @ drop (m_end m) t)"
    unfolding st_def by blast
  have "m_text m \<noteq> []"
    using v by (auto simp: slice_def)
  then have tok_pos: "0 < length tok"
    unfolding tok_def using substitute_nonempty by blast
  have len1: "length (concat res1) = length (concat res) + length pre + length tok"
    by (simp add: res1_def)
  have a: "fst (snd st) = keys @ (rec # new)"
    using new(1) by simp
  have "r_pos rec < r_pos r" if "r \<in> set new" for r
  proof -
    from new(3) that have "int (length (concat res1)) \<le> r_pos r" by blast
    then have q: "int (length (concat res)) + int (length pre) + int (length tok) \<le> r_pos r"
      by (simp add: len1)
    have p: "0 < int (length tok)" using tok_pos by simp
    have "r_pos rec = int (length (concat res)) + int (length pre)"
      by (simp add: rec_def)
    with p q show ?thesis by linarith
  qed
  then have b: "sorted_wrt (<) (map r_pos (rec # new))"
    using new(2) by auto
  have c: "\<forall>r \<in> set (rec # new). int (length (concat res)) \<le> r_pos r"
    using new(3) by (auto simp: rec_def len1)
  have x: "concat res1 @ drop (m_end m) t = (concat res @ pre) @ tok @ drop (m_end m) t"
    by (simp add: res1_def)
  have one: "restore_loop [rec] (concat res1 @ drop (m_end m) t)
      = Inr ((concat res @ pre) @ m_text m @ drop (m_end m) t)"
    unfolding x by (simp add: rec_def slice_to_def slice_from_def)
  have "(concat res @ pre) @ m_text m @ drop (m_end m) t = concat res @ drop cur t"
    using slice_join [of cur "m_start m" "m_end m" t] v by (simp add: pre_def)
  with one have "restore_loop [rec] (concat res1 @ drop (m_end m) t)
      = Inr (concat res @ drop cur t)"
    by simp
  then have d: "restore_loop (rev (rec # new)) (concat (fst st) @ drop (fst (snd (snd st))) t)
      = Inr (concat res @ drop cur t)"
    using new(4) by (simp add: restore_loop_append)
  show ?case
    unfolding step using a b c d by blast
qed

lemma token_atI:
  assumes "rt = before @ tok @ after" "r_pos r = int (length before)" "r_len r = int (length tok)"
    "r_text r = m_text m" "style_law style tok (m_text m)"
  shows "token_at style rt r m"
proof -
  have "recorded_token rt r = tok"
    using assms(1,2,3) by (simp add: recorded_token_def slice_def)
  then show ?thesis
    using assms by (simp add: token_at_def)
qed

lemma redact_loop_tokens:
  "\<exists>new suffix. fst (snd (redact_loop t style tape ms (res, keys, cur, k))) = keys @ new
     \<and> concat (fst (redact_loop t style tape ms (res, keys, cur, k))) = concat res @ suffix
     \<and> list_all2
          (\<lambda>r m. \<exists>before tok after.
              concat (fst (redact_loop t style tape ms (res, keys, cur, k))) = before @ tok @ after
              \<and> r_pos r = int (length before) \<and> r_len r = int (length tok)
              \<and> r_text r = m_text m \<and> style_law style tok (m_text m))
          new ms"
proof (induction ms arbitrary: res keys cur k)
  case Nil
  show ?case by simp
next
  case (Cons m ms)
  define pre where "pre = slice t cur (m_start m)"
  define tok where "tok = fst (substitute style (m_text m) tape k)"
  define k' where "k' = snd (substitute style (m_text m) tape k)"
  define rec where
    "rec = \<lparr>r_pos = int (length (concat res) + length pre), r_text = m_text m,
            r_len = int (length tok)\<rparr>"
  define res1 where "res1 = (res @ [pre]) @ [tok]"
  define st where "st = redact_loop t style tape ms (res1, keys @ [rec], m_end m, k')"
  have step: "redact_loop t style tape (m # ms) (res, keys, cur, k) = st"
    by (simp add: st_def res1_def rec_def k'_def tok_def pre_def Let_def length_concat)
  from Cons.IH [of res1 "keys @ [rec]" "m_end m" k']
  obtain new suffix where new:
    "fst (snd st) = (keys @ [rec]) @ new"
    "concat (fst st) = concat res1 @ suffix"
    "list_all2
       (\<lambda>r m. \<exists>before tok after. concat (fst st) = before @ tok @ after
           \<and> r_pos r = int (length before) \<and> r_len r = int (length tok)
           \<and> r_text r = m_text m \<and> style_law style tok (m_text m))
       new ms"
    unfolding st_def by blast
  have a: "fst (snd st) = keys @ (rec # new)"
    using new(1) by simp
  have b: "concat (fst st) = concat res @ (pre @ tok @ suffix)"
    using new(2) by (simp add: res1_def)
  have "concat (fst st) = (concat res @ pre) @ tok @ suffix
      \<and> r_pos rec = int (length (concat res @ pre)) \<and> r_len rec = int (length tok)
      \<and> r_text rec = m_text m \<and> style_law style tok (m_text m)"
    using b substitute_law [of style "m_text m" tape k] by (simp add: rec_def tok_def)
  then have c: "\<exists>before tok after. concat (fst st) = before @ tok @ after
      \<and> r_pos rec = int (length before) \<and> r_len rec = int (length tok)
      \<and> r_text rec = m_text m \<and> style_law style tok (m_text m)"
    by blast
  show ?case
    unfolding step using a b c new(3) by (intro exI [of _ "rec # new"] exI [of _ "pre @ tok @ suffix"]) simp
qed

lemma sort_descending_rev:
  assumes "sorted_wrt (<) (map r_pos new)"
  shows "sort_key (\<lambda>x. - r_pos x) new = rev new"
proof -
  have s: "sorted_wrt (\<lambda>x y. r_pos x < r_pos y) new"
    using assms by (simp add: sorted_wrt_map)
  then have "sorted_wrt (\<lambda>x y. - r_pos y \<le> - r_pos x) new"
    by (rule sorted_wrt_mono_rel [rotated]) simp
  then have "sorted (map (\<lambda>x. - r_pos x) (rev new))"
    by (simp add: sorted_wrt_map sorted_wrt_rev)
  then have "sort_key (\<lambda>x. - r_pos x) (rev new) = rev new"
    by (rule sort_key_id_if_sorted)
  moreover have "distinct (map r_pos new)"
    using assms by (simp add: strict_sorted_iff)
  then have "distinct (map (\<lambda>x. - r_pos x) (rev new))"
    by (simp add: distinct_map inj_on_def)
  then have "sort_key (\<lambda>x. - r_pos x) new = sort_key (\<lambda>x. - r_pos x) (rev new)"
    by (intro sort_key_distinct_perm) simp_all
  ultimately show ?thesis by simp
qed

section \<open>The resolved span set\<close>

lemma resolve_loop_foldl:
  "cl \<noteq> [] \<Longrightarrow> resolve_loop cl ms = foldl keep_or_drop cl ms"
  by (induction ms arbitrary: cl) (auto simp: keep_or_drop_def)

lemma resolve_first_claim_wins: "resolve cs = first_claim_wins (sort_key m_start cs)"
proof (cases "sort_key m_start cs")
  case Nil
  then show ?thesis by (simp add: resolve_def first_claim_wins_def)
next
  case (Cons m0 rest)
  have "keep_or_drop [] m0 = [m0]"
    by (simp add: keep_or_drop_def)
  then show ?thesis
    using Cons by (simp add: resolve_def first_claim_wins_def resolve_loop_foldl)
qed

lemma resolve_sort_idem: "resolve (sort_key m_start cs) = resolve cs"
proof -
  have "sort_key m_start (sort_key m_start cs) = sort_key m_start cs"
    by (rule sort_key_id_if_sorted) simp
  then show ?thesis by (simp add: resolve_def)
qed

lemma resolve_prefix_law:
  assumes "sort_key m_start cs = ys @ c # zs" and "ys \<noteq> []"
  shows "resolve (ys @ [c]) =
     (if m_start c < m_end (last (resolve ys)) then resolve ys else resolve ys @ [c])"
proof -
  have "sorted (map m_start (ys @ c # zs))"
    using assms(1) [symmetric] by simp
  then have "\<forall>x \<in> set ys. m_start x \<le> m_start c"
    by (auto simp: sorted_append)
  with assms(2) show ?thesis by (intro resolve_snoc) auto
qed

text \<open>
  C4. For every candidate list the kept spans do not overlap: each kept span ends no
  later than the next one starts. When every candidate is a span (\<open>start < end\<close>), the
  kept spans are strictly ascending by start and pairwise disjoint. A candidate that is
  sorted last (its start is no smaller than any other, and it was discovered last) is
  dropped exactly when its start is strictly less than the end of the last kept span.
  Of \<open>A = [0,5)\<close> and \<open>B = [3,10)\<close>, discovered in that order, only \<open>A\<close> is kept, and
  no candidates give no spans. What \<open>_find_matches\<close> returns is always strictly
  ascending and pairwise disjoint, since every candidate of the matcher is a span.

  The resolution is first-claim-wins after a stable sort by start: the resolver gives
  what the walk of the specification gives on the stably sorted candidates, so sorting
  the candidates beforehand changes nothing, and at every place of the sorted list the
  candidate there is dropped exactly when its start is strictly less than the end of
  the last span kept before it. \<open>A\<close> alone is kept also when \<open>B\<close> is discovered first,
  and of two candidates with the same start the one discovered first is kept.
\<close>

theorem resolver_non_overlap:
  "successively (\<lambda>a b. m_end a \<le> m_start b) (resolve cs)
   \<and> ((\<forall>m \<in> set cs. m_start m < m_end m) \<longrightarrow> sorted_wrt disjoint_order (resolve cs))
   \<and> (cs \<noteq> [] \<and> (\<forall>x \<in> set cs. m_start x \<le> m_start c) \<longrightarrow>
        resolve (cs @ [c]) =
          (if m_start c < m_end (last (resolve cs)) then resolve cs else resolve cs @ [c]))
   \<and> resolve [(0, 5, ta), (3, 10, tb)] = [(0, 5, ta)]
   \<and> resolve [] = []
   \<and> sorted_wrt disjoint_order (find_matches U t custom_words redact_caps)
   \<and> resolve cs = first_claim_wins (sort_key m_start cs)
   \<and> resolve (sort_key m_start cs) = resolve cs
   \<and> (\<forall>ys d zs. sort_key m_start cs = ys @ d # zs \<and> ys \<noteq> [] \<longrightarrow>
        resolve (ys @ [d]) =
          (if m_start d < m_end (last (resolve ys)) then resolve ys else resolve ys @ [d]))
   \<and> resolve [(3, 10, tb), (0, 5, ta)] = [(0, 5, ta)]
   \<and> resolve [(0, 5, ta), (0, 3, tb)] = [(0, 5, ta)]
   \<and> resolve [(0, 3, tb), (0, 5, ta)] = [(0, 3, tb)]"
proof -
  have old: "successively (\<lambda>a b. m_end a \<le> m_start b) (resolve cs)
   \<and> ((\<forall>m \<in> set cs. m_start m < m_end m) \<longrightarrow> sorted_wrt disjoint_order (resolve cs))
   \<and> (cs \<noteq> [] \<and> (\<forall>x \<in> set cs. m_start x \<le> m_start c) \<longrightarrow>
        resolve (cs @ [c]) =
          (if m_start c < m_end (last (resolve cs)) then resolve cs else resolve cs @ [c]))
   \<and> resolve [(0, 5, ta), (3, 10, tb)] = [(0, 5, ta)]
   \<and> resolve [] = []
   \<and> sorted_wrt disjoint_order (find_matches U t custom_words redact_caps)"
    using resolve_successively resolve_sorted resolve_snoc find_matches_sorted
    by (simp add: resolve_def m_start_def m_end_def)
  have law: "\<forall>ys d zs. sort_key m_start cs = ys @ d # zs \<and> ys \<noteq> [] \<longrightarrow>
        resolve (ys @ [d]) =
          (if m_start d < m_end (last (resolve ys)) then resolve ys else resolve ys @ [d])"
    using resolve_prefix_law by blast
  have ex: "resolve [(3, 10, tb), (0, 5, ta)] = [(0, 5, ta)]"
    "resolve [(0, 5, ta), (0, 3, tb)] = [(0, 5, ta)]"
    "resolve [(0, 3, tb), (0, 5, ta)] = [(0, 3, tb)]"
    by (simp_all add: resolve_def m_start_def m_end_def)
  from old resolve_first_claim_wins [of cs] resolve_sort_idem [of cs] law ex
  show ?thesis by (intro conjI) (elim conjE, assumption)+
qed

theorem resolver_non_overlap_witness:
  "list_all (\<lambda>m. m_start m < m_end m)
      [(3::nat, 10::nat, str ''defghij''), (0, 5, str ''abcde''), (5, 7, str ''fg''),
       (0, 5, str ''abcde''), (1, 2, str ''b'')]
   \<and> list_all (\<lambda>x. m_start x \<le> m_start (7::nat, 9::nat, str ''hi''))
      [(3::nat, 10::nat, str ''defghij''), (0, 5, str ''abcde''), (5, 7, str ''fg''),
       (0, 5, str ''abcde''), (1, 2, str ''b'')]
   \<and> sort_key m_start
        [(3, 10, str ''defghij''), (0, 5, str ''abcde''), (5, 7, str ''fg''),
         (0, 5, str ''abcde''), (1, 2, str ''b'')]
       = [(0, 5, str ''abcde''), (0, 5, str ''abcde'')] @ (1, 2, str ''b'')
           # [(3, 10, str ''defghij''), (5, 7, str ''fg'')]
   \<and> resolve [(3, 10, str ''defghij''), (0, 5, str ''abcde''), (5, 7, str ''fg''),
               (0, 5, str ''abcde''), (1, 2, str ''b'')]
       = [(0, 5, str ''abcde''), (5, 7, str ''fg'')]
   \<and> first_claim_wins
        [(0, 5, str ''abcde''), (0, 5, str ''abcde''), (1, 2, str ''b''),
         (3, 10, str ''defghij''), (5, 7, str ''fg'')]
       = [(0, 5, str ''abcde''), (5, 7, str ''fg'')]
   \<and> resolve ([(0, 5, str ''abcde''), (0, 5, str ''abcde'')] @ [(1, 2, str ''b'')])
       = resolve [(0, 5, str ''abcde''), (0, 5, str ''abcde'')]
   \<and> sorted_wrt disjoint_order
        (resolve [(3, 10, str ''defghij''), (0, 5, str ''abcde''), (5, 7, str ''fg''),
                  (0, 5, str ''abcde''), (1, 2, str ''b'')])
   \<and> resolve ([(3, 10, str ''defghij''), (0, 5, str ''abcde''), (5, 7, str ''fg''),
                (0, 5, str ''abcde''), (1, 2, str ''b'')] @ [(7, 9, str ''hi'')])
       = [(0, 5, str ''abcde''), (5, 7, str ''fg''), (7, 9, str ''hi'')]"
  using resolver_non_overlap
    [of "[(3, 10, str ''defghij''), (0, 5, str ''abcde''), (5, 7, str ''fg''),
          (0, 5, str ''abcde''), (1, 2, str ''b'')]"
        "(7, 9, str ''hi'')"]
  by (simp add: resolve_def first_claim_wins_def keep_or_drop_def m_start_def m_end_def)

section \<open>Round trip, integrity, styles and the worked example\<close>

lemma utf8_encode_None_iff: "utf8_encode t = None \<longleftrightarrow> (\<exists>c \<in> set t. utf8_char c = None)"
  by (induction t) (auto split: option.splits)

lemma set_slice: "set (slice t i j) \<subseteq> set t"
  unfolding slice_def by (meson set_take_subset set_drop_subset subset_trans)

lemma set_substitute:
  "set (fst (substitute style original tape k))
     \<subseteq> insert block_char (set noise_chars \<union> set redacted_token)"
  using set_noise [of tape k "length original"] by (auto simp: substitute_def)

lemma redact_loop_chars:
  "set (concat (fst (redact_loop t style tape ms (res, keys, cur, k))))
     \<subseteq> set (concat res) \<union> set t \<union> insert block_char (set noise_chars \<union> set redacted_token)"
proof (induction ms arbitrary: res keys cur k)
  case Nil
  show ?case by auto
next
  case (Cons m ms)
  define pre where "pre = slice t cur (m_start m)"
  define tok where "tok = fst (substitute style (m_text m) tape k)"
  define k' where "k' = snd (substitute style (m_text m) tape k)"
  define rec where
    "rec = \<lparr>r_pos = int (length (concat res) + length pre), r_text = m_text m,
            r_len = int (length tok)\<rparr>"
  define res1 where "res1 = (res @ [pre]) @ [tok]"
  have step: "redact_loop t style tape (m # ms) (res, keys, cur, k)
      = redact_loop t style tape ms (res1, keys @ [rec], m_end m, k')"
    by (simp add: res1_def rec_def k'_def tok_def pre_def Let_def length_concat)
  have "set (concat res1) \<subseteq> set (concat res) \<union> set t
      \<union> insert block_char (set noise_chars \<union> set redacted_token)"
    using set_slice [of t cur "m_start m"] set_substitute [of style "m_text m" tape k]
    by (auto simp: res1_def pre_def tok_def)
  with Cons [of res1 "keys @ [rec]" "m_end m" k'] show ?case
    unfolding step by blast
qed

lemma token_chars_encodable:
  "c \<in> insert block_char (set noise_chars \<union> set redacted_token) \<Longrightarrow> utf8_char c \<noteq> None"
  by (auto simp: block_char_def noise_chars_def redacted_token_def str_def utf8_char_def)

lemma redact_Inr:
  assumes "redact U H t style W C tape = Inr (rt, key)"
  shows "fst (restore H rt key) = Inr t
    \<and> list_all2 (token_at style rt) (k_restorations key) (find_matches U t W C)"
proof -
  define ms where "ms = find_matches U t W C"
  define st where "st = redact_loop t style tape ms ([], [], 0, 0)"
  from assms obtain b where b: "utf8_encode rt = Some b"
    and rt: "rt = concat (fst st) @ drop (fst (snd (snd st))) t"
    and key: "key = \<lparr>k_version = str ''1.0'', k_hash = H b, k_restorations = fst (snd st)\<rparr>"
    by (auto simp: redact_def Let_def st_def ms_def split: option.splits)
  have "sorted_wrt disjoint_order ms" "\<forall>m \<in> set ms. valid_span t m \<and> 0 \<le> m_start m"
    unfolding ms_def using find_matches_sorted find_matches_valid by auto
  from redact_loop_restore [OF this, of style tape "[]" "[]" 0]
  obtain new where new: "fst (snd st) = new" "sorted_wrt (<) (map r_pos new)"
    "restore_loop (rev new) rt = Inr t"
    unfolding st_def [symmetric] rt by auto
  have "fst (restore H rt key) = Inr t"
    using b new by (simp add: restore_def key sort_descending_rev)
  moreover
  from redact_loop_tokens [of t style tape ms "[]" "[]" 0 0]
  obtain suffix where tk: "list_all2
          (\<lambda>r m. \<exists>before tok after. concat (fst st) = before @ tok @ after
              \<and> r_pos r = int (length before) \<and> r_len r = int (length tok)
              \<and> r_text r = m_text m \<and> style_law style tok (m_text m))
          (fst (snd st)) ms"
    unfolding st_def [symmetric] by auto
  have "list_all2 (token_at style rt) (fst (snd st)) ms"
  proof (rule list_all2_mono [OF tk])
    fix r :: restoration and m :: span
    assume "\<exists>before tok after. concat (fst st) = before @ tok @ after
              \<and> r_pos r = int (length before) \<and> r_len r = int (length tok)
              \<and> r_text r = m_text m \<and> style_law style tok (m_text m)"
    then obtain before tok after where d: "concat (fst st) = before @ tok @ after"
      "r_pos r = int (length before)" "r_len r = int (length tok)"
      "r_text r = m_text m" "style_law style tok (m_text m)"
      by blast
    have "rt = before @ tok @ (after @ drop (fst (snd (snd st))) t)"
      using d(1) rt by simp
    from token_atI [OF this d(2-5)] show "token_at style rt r m" .
  qed
  then have "list_all2 (token_at style rt) (k_restorations key) (find_matches U t W C)"
    by (simp add: key ms_def)
  ultimately show ?thesis by blast
qed

lemma redact_Inl:
  assumes "redact U H t style W C tape = Inl e"
  shows "e = UnicodeEncodeError \<and> utf8_encode t = None"
proof -
  define ms where "ms = find_matches U t W C"
  define st where "st = redact_loop t style tape ms ([], [], 0, 0)"
  define rt where "rt = concat (fst st) @ drop (fst (snd (snd st))) t"
  from assms have e: "e = UnicodeEncodeError" and n: "utf8_encode rt = None"
    by (auto simp: redact_def Let_def st_def ms_def rt_def split: option.splits)
  from n obtain c where c: "c \<in> set rt" "utf8_char c = None"
    by (auto simp: utf8_encode_None_iff)
  have "set rt \<subseteq> set t \<union> insert block_char (set noise_chars \<union> set redacted_token)"
    using redact_loop_chars [of t style tape ms "[]" "[]" 0 0] set_drop_subset [of _ t]
    unfolding rt_def st_def by auto
  with c token_chars_encodable [of c] have "c \<in> set t" by blast
  with c(2) e show ?thesis
    by (auto simp: utf8_encode_None_iff)
qed

lemma redact_total:
  assumes "utf8_encode t \<noteq> None"
  shows "\<exists>rt key. redact U H t style W C tape = Inr (rt, key)"
proof (cases "redact U H t style W C tape")
  case (Inl e)
  with redact_Inl [OF Inl] assms show ?thesis by simp
next
  case (Inr p)
  then show ?thesis by (cases p) simp
qed

text \<open>
  C1. Round trip: for every text, style, custom word list, heuristic flag, Unicode
  database, digest function and sequence of random draws, whenever \<open>redact\<close> returns a
  redacted text and a key, \<open>restore\<close> on that pair returns exactly the original text.
  \<open>redact\<close> fails only with \<open>UnicodeEncodeError\<close>, and only on a text that has no
  UTF-8 encoding (a lone surrogate); on every text that has one it returns a pair.
\<close>

theorem redact_restore_roundtrip:
  "(\<forall>rt key. redact U H t style W C tape = Inr (rt, key) \<longrightarrow> fst (restore H rt key) = Inr t)
   \<and> (\<forall>e. redact U H t style W C tape = Inl e \<longrightarrow> e = UnicodeEncodeError \<and> utf8_encode t = None)
   \<and> (utf8_encode t \<noteq> None \<longrightarrow>
        (\<exists>rt key. redact U H t style W C tape = Inr (rt, key) \<and> fst (restore H rt key) = Inr t))"
  using redact_Inr [of U H t style W C tape] redact_Inl [of U H t style W C tape]
    redact_total [of t U H style W C tape]
  by blast

lemma ascii_faithful_ascii_db: "ascii_faithful ascii_db"
  by (simp add: ascii_faithful_def ascii_db_def)

lemmas char_classes =
  ascii_word_def ascii_upper_def ascii_lower_def ascii_digit_def in_range_def one_of_def
  str_def lit_def ascii_fold_def

lemmas matcher_defs =
  find_matches_def candidates_def resolve_def scan_def seqs_def finditer_from.simps
  at_boundary_def slice_def m_start_def m_end_def m_text_def Let_def
  ipv4_pattern_def date_pattern_def email_pattern_def word_pattern_def caps_pattern_def

lemma example_matches:
  assumes "ascii_faithful U"
  shows "find_matches U (str ''Contact john@example.com on 2023-01-05.'') [] False
    = [(8, 24, str ''john@example.com''), (28, 38, str ''2023-01-05'')]"
proof -
  have w: "\<And>c. c < 128 \<Longrightarrow> is_word U c = ascii_word c"
    and d: "\<And>c. c < 128 \<Longrightarrow> is_decimal U c = ascii_digit c"
    using assms by (simp_all add: ascii_faithful_def)
  show ?thesis
    by (simp add: matcher_defs char_classes w d)
qed

lemma example_redact:
  assumes "ascii_faithful U"
  shows "redact U H (str ''Contact john@example.com on 2023-01-05.'') (str ''CLASSIC'') [] False tape
    = Inr (str ''Contact [REDACTED] on [REDACTED].'',
        \<lparr>k_version = str ''1.0'', k_hash = H (str ''Contact [REDACTED] on [REDACTED].''),
         k_restorations = [\<lparr>r_pos = 8, r_text = str ''john@example.com'', r_len = 10\<rparr>,
                           \<lparr>r_pos = 22, r_text = str ''2023-01-05'', r_len = 10\<rparr>]\<rparr>)"
  unfolding redact_def example_matches [OF assms]
  by (simp add: substitute_def redacted_token_def str_def slice_def m_start_def m_end_def
      m_text_def utf8_char_def Let_def)

lemma example_restore:
  "fst (restore H (str ''Contact [REDACTED] on [REDACTED].'')
        \<lparr>k_version = str ''1.0'', k_hash = H (str ''Contact [REDACTED] on [REDACTED].''),
         k_restorations = [\<lparr>r_pos = 8, r_text = str ''john@example.com'', r_len = 10\<rparr>,
                           \<lparr>r_pos = 22, r_text = str ''2023-01-05'', r_len = 10\<rparr>]\<rparr>)
   = Inr (str ''Contact john@example.com on 2023-01-05.'')"
  by (simp add: restore_def str_def utf8_char_def slice_to_def slice_from_def)

text \<open>
  C9. The worked example: with style CLASSIC, no custom words and the heuristic off,
  \<open>"Contact john@example.com on 2023-01-05."\<close> becomes
  \<open>"Contact [REDACTED] on [REDACTED]."\<close>; the key holds two records, the e-mail
  address first and the date second, and \<open>restore\<close> on that pair gives the original
  string back. This holds for every digest function, every sequence of draws and every
  Unicode database that is right on the ASCII range.
\<close>

theorem worked_example:
  "ascii_faithful U \<longrightarrow>
     redact U H (str ''Contact john@example.com on 2023-01-05.'') (str ''CLASSIC'') [] False tape
       = Inr (str ''Contact [REDACTED] on [REDACTED].'',
           \<lparr>k_version = str ''1.0'', k_hash = H (str ''Contact [REDACTED] on [REDACTED].''),
            k_restorations = [\<lparr>r_pos = 8, r_text = str ''john@example.com'', r_len = 10\<rparr>,
                              \<lparr>r_pos = 22, r_text = str ''2023-01-05'', r_len = 10\<rparr>]\<rparr>)
     \<and> fst (restore H (str ''Contact [REDACTED] on [REDACTED].'')
           \<lparr>k_version = str ''1.0'', k_hash = H (str ''Contact [REDACTED] on [REDACTED].''),
            k_restorations = [\<lparr>r_pos = 8, r_text = str ''john@example.com'', r_len = 10\<rparr>,
                              \<lparr>r_pos = 22, r_text = str ''2023-01-05'', r_len = 10\<rparr>]\<rparr>)
         = Inr (str ''Contact john@example.com on 2023-01-05.'')"
  using example_redact [of U H tape] example_restore [of H] by blast

theorem worked_example_witness:
  "\<forall>H tape. ascii_faithful ascii_db
     \<and> redact ascii_db H (str ''Contact john@example.com on 2023-01-05.'') (str ''CLASSIC'') [] False tape
       = Inr (str ''Contact [REDACTED] on [REDACTED].'',
           \<lparr>k_version = str ''1.0'', k_hash = H (str ''Contact [REDACTED] on [REDACTED].''),
            k_restorations = [\<lparr>r_pos = 8, r_text = str ''john@example.com'', r_len = 10\<rparr>,
                              \<lparr>r_pos = 22, r_text = str ''2023-01-05'', r_len = 10\<rparr>]\<rparr>)"
  using worked_example [of ascii_db] ascii_faithful_ascii_db by simp

lemma noise_numeral:
  "noise tape k (numeral n)
     = (noise_chars ! (tape k mod length noise_chars)) # noise tape (Suc k) (pred_numeral n)"
  by (simp add: numeral_eq_Suc)

lemmas redact_eval =
  redact_def matcher_defs char_classes ascii_db_def substitute_def redacted_token_def
  block_char_def noise_chars_def noise_numeral utf8_char_def

lemma noise_example:
  "redact ascii_db H (str ''Mail bob@x.io NOW'') (str ''VECTURE_NOISE'') [str ''now''] True (\<lambda>i. i)
    = Inr (str ''XJ9# kL@!%&?X J9#'',
        \<lparr>k_version = str ''1.0'', k_hash = H (str ''XJ9# kL@!%&?X J9#''),
         k_restorations = [\<lparr>r_pos = 0, r_text = str ''Mail'', r_len = 4\<rparr>,
                           \<lparr>r_pos = 5, r_text = str ''bob@x.io'', r_len = 8\<rparr>,
                           \<lparr>r_pos = 14, r_text = str ''NOW'', r_len = 3\<rparr>]\<rparr>)"
  by (simp add: redact_eval)

lemma blackout_example:
  "redact ascii_db H (str ''Mail bob@x.io NOW'') (str ''BLACKOUT'') [str ''now''] True tape
    = Inr ([9608, 9608, 9608, 9608, 32, 9608, 9608, 9608, 9608, 9608, 9608, 9608, 9608, 32,
            9608, 9608, 9608],
        \<lparr>k_version = str ''1.0'',
         k_hash = H [226, 150, 136, 226, 150, 136, 226, 150, 136, 226, 150, 136, 32,
                     226, 150, 136, 226, 150, 136, 226, 150, 136, 226, 150, 136,
                     226, 150, 136, 226, 150, 136, 226, 150, 136, 226, 150, 136, 32,
                     226, 150, 136, 226, 150, 136, 226, 150, 136],
         k_restorations = [\<lparr>r_pos = 0, r_text = str ''Mail'', r_len = 4\<rparr>,
                           \<lparr>r_pos = 5, r_text = str ''bob@x.io'', r_len = 8\<rparr>,
                           \<lparr>r_pos = 14, r_text = str ''NOW'', r_len = 3\<rparr>]\<rparr>)"
  by (simp add: redact_eval)

theorem redact_restore_roundtrip_witness:
  "\<forall>H. utf8_encode (str ''Mail bob@x.io NOW'') = Some (str ''Mail bob@x.io NOW'')
     \<and> redact ascii_db H (str ''Mail bob@x.io NOW'') (str ''VECTURE_NOISE'') [str ''now''] True (\<lambda>i. i)
       = Inr (str ''XJ9# kL@!%&?X J9#'',
           \<lparr>k_version = str ''1.0'', k_hash = H (str ''XJ9# kL@!%&?X J9#''),
            k_restorations = [\<lparr>r_pos = 0, r_text = str ''Mail'', r_len = 4\<rparr>,
                              \<lparr>r_pos = 5, r_text = str ''bob@x.io'', r_len = 8\<rparr>,
                              \<lparr>r_pos = 14, r_text = str ''NOW'', r_len = 3\<rparr>]\<rparr>)
     \<and> fst (restore H (str ''XJ9# kL@!%&?X J9#'')
           \<lparr>k_version = str ''1.0'', k_hash = H (str ''XJ9# kL@!%&?X J9#''),
            k_restorations = [\<lparr>r_pos = 0, r_text = str ''Mail'', r_len = 4\<rparr>,
                              \<lparr>r_pos = 5, r_text = str ''bob@x.io'', r_len = 8\<rparr>,
                              \<lparr>r_pos = 14, r_text = str ''NOW'', r_len = 3\<rparr>]\<rparr>)
         = Inr (str ''Mail bob@x.io NOW'')"
proof
  fix H
  have e: "utf8_encode (str ''Mail bob@x.io NOW'') = Some (str ''Mail bob@x.io NOW'')"
    by (simp add: str_def utf8_char_def)
  show "utf8_encode (str ''Mail bob@x.io NOW'') = Some (str ''Mail bob@x.io NOW'')
     \<and> redact ascii_db H (str ''Mail bob@x.io NOW'') (str ''VECTURE_NOISE'') [str ''now''] True (\<lambda>i. i)
       = Inr (str ''XJ9# kL@!%&?X J9#'',
           \<lparr>k_version = str ''1.0'', k_hash = H (str ''XJ9# kL@!%&?X J9#''),
            k_restorations = [\<lparr>r_pos = 0, r_text = str ''Mail'', r_len = 4\<rparr>,
                              \<lparr>r_pos = 5, r_text = str ''bob@x.io'', r_len = 8\<rparr>,
                              \<lparr>r_pos = 14, r_text = str ''NOW'', r_len = 3\<rparr>]\<rparr>)
     \<and> fst (restore H (str ''XJ9# kL@!%&?X J9#'')
           \<lparr>k_version = str ''1.0'', k_hash = H (str ''XJ9# kL@!%&?X J9#''),
            k_restorations = [\<lparr>r_pos = 0, r_text = str ''Mail'', r_len = 4\<rparr>,
                              \<lparr>r_pos = 5, r_text = str ''bob@x.io'', r_len = 8\<rparr>,
                              \<lparr>r_pos = 14, r_text = str ''NOW'', r_len = 3\<rparr>]\<rparr>)
         = Inr (str ''Mail bob@x.io NOW'')"
    using redact_restore_roundtrip
      [of ascii_db H "str ''Mail bob@x.io NOW''" "str ''VECTURE_NOISE''" "[str ''now'']" True "\<lambda>i. i"]
      noise_example [of H] e
    by simp
qed

text \<open>
  C2. Integrity rejection: \<open>restore\<close> first computes the digest of the UTF-8 bytes of
  the supplied text; when it differs from the anchor of the key the result is
  \<open>IntegrityError\<close>, no record has been applied and the key is as it was. A text
  without UTF-8 bytes is refused likewise, before any record is applied. In particular,
  for a pair that \<open>redact\<close> returned, changing one character of the redacted text makes
  \<open>restore\<close> with the unmodified key raise \<open>IntegrityError\<close>, whenever the changed text
  has another digest.
\<close>

theorem integrity_rejection:
  "(utf8_encode t = Some b \<and> H b \<noteq> k_hash key \<longrightarrow> restore H t key = (Inl IntegrityError, key))
   \<and> (utf8_encode t = None \<longrightarrow> restore H t key = (Inl UnicodeEncodeError, key))
   \<and> (redact U H T S W C tape = Inr (rt, k) \<and> utf8_encode rt = Some b0
        \<and> i < length rt \<and> c \<noteq> rt ! i \<and> utf8_encode (rt[i := c]) = Some b' \<and> H b' \<noteq> H b0
      \<longrightarrow> restore H (rt[i := c]) k = (Inl IntegrityError, k))"
  by (auto simp: restore_def redact_def Let_def split: option.splits)

lemma integrity_example:
  "redact ascii_db (\<lambda>b. b) (str ''x 1.2.3.4'') (str ''CLASSIC'') [] False (\<lambda>i. 0)
    = Inr (str ''x [REDACTED]'',
        \<lparr>k_version = str ''1.0'', k_hash = str ''x [REDACTED]'',
         k_restorations = [\<lparr>r_pos = 2, r_text = str ''1.2.3.4'', r_len = 10\<rparr>]\<rparr>)"
  by (simp add: redact_eval)

theorem integrity_rejection_witness:
  "redact ascii_db (\<lambda>b. b) (str ''x 1.2.3.4'') (str ''CLASSIC'') [] False (\<lambda>i. 0)
    = Inr (str ''x [REDACTED]'',
        \<lparr>k_version = str ''1.0'', k_hash = str ''x [REDACTED]'',
         k_restorations = [\<lparr>r_pos = 2, r_text = str ''1.2.3.4'', r_len = 10\<rparr>]\<rparr>)
   \<and> utf8_encode (str ''x [REDACTED]'') = Some (str ''x [REDACTED]'')
   \<and> (str ''x [REDACTED]'')[0 := of_char CHR ''y''] = str ''y [REDACTED]''
   \<and> utf8_encode (str ''y [REDACTED]'') = Some (str ''y [REDACTED]'')
   \<and> str ''y [REDACTED]'' \<noteq> str ''x [REDACTED]''
   \<and> restore (\<lambda>b. b) (str ''y [REDACTED]'')
        \<lparr>k_version = str ''1.0'', k_hash = str ''x [REDACTED]'',
         k_restorations = [\<lparr>r_pos = 2, r_text = str ''1.2.3.4'', r_len = 10\<rparr>]\<rparr>
      = (Inl IntegrityError,
        \<lparr>k_version = str ''1.0'', k_hash = str ''x [REDACTED]'',
         k_restorations = [\<lparr>r_pos = 2, r_text = str ''1.2.3.4'', r_len = 10\<rparr>]\<rparr>)"
proof -
  have e: "utf8_encode (str ''x [REDACTED]'') = Some (str ''x [REDACTED]'')"
    "utf8_encode (str ''y [REDACTED]'') = Some (str ''y [REDACTED]'')"
    by (simp_all add: str_def utf8_char_def)
  have m: "(str ''x [REDACTED]'')[0 := of_char CHR ''y''] = str ''y [REDACTED]''"
    "str ''y [REDACTED]'' \<noteq> str ''x [REDACTED]''"
    "0 < length (str ''x [REDACTED]'')" "of_char CHR ''y'' \<noteq> str ''x [REDACTED]'' ! 0"
    by (simp_all add: str_def)
  from integrity_rejection
    [of "str ''y [REDACTED]''" "str ''y [REDACTED]''" "\<lambda>b. b"
        "\<lparr>k_version = str ''1.0'', k_hash = str ''x [REDACTED]'',
          k_restorations = [\<lparr>r_pos = 2, r_text = str ''1.2.3.4'', r_len = 10\<rparr>]\<rparr>"
        ascii_db "str ''x 1.2.3.4''" "str ''CLASSIC''" "[]" False "\<lambda>i. 0"
        "str ''x [REDACTED]''"
        "\<lparr>k_version = str ''1.0'', k_hash = str ''x [REDACTED]'',
          k_restorations = [\<lparr>r_pos = 2, r_text = str ''1.2.3.4'', r_len = 10\<rparr>]\<rparr>"
        "str ''x [REDACTED]''" 0 "of_char CHR ''y''" "str ''y [REDACTED]''"]
  show ?thesis
    using integrity_example e m by simp
qed

text \<open>
  C8. Style length invariants: the BLACKOUT replacement is the block character repeated
  \<open>len(original)\<close> times, the VECTURE_NOISE replacement has \<open>len(original)\<close> characters
  of the fixed alphabet, the CLASSIC replacement is the literal \<open>[REDACTED]\<close>. In the
  pair that \<open>redact\<close> returns, the records correspond one to one to the resolved spans,
  and each record lies inside the redacted text, keeps the original of its span, has
  for \<open>len\<close> the length of the replacement found at \<open>pos\<close>, and that replacement is
  the one of the style.
\<close>

theorem style_length_invariants:
  "fst (substitute (str ''BLACKOUT'') original tape k) = replicate (length original) block_char
   \<and> length (fst (substitute (str ''VECTURE_NOISE'') original tape k)) = length original
   \<and> set (fst (substitute (str ''VECTURE_NOISE'') original tape k)) \<subseteq> set noise_chars
   \<and> fst (substitute (str ''CLASSIC'') original tape k) = str ''[REDACTED]''
   \<and> (redact U H t style W C tape' = Inr (rt, key) \<longrightarrow>
        list_all2 (token_at style rt) (k_restorations key) (find_matches U t W C))"
  using set_noise [of tape k "length original"] redact_Inr [of U H t style W C tape' rt key]
  by (simp add: substitute_def length_noise redacted_token_def str_def)

theorem style_length_invariants_witness:
  "\<forall>H. redact ascii_db H (str ''Mail bob@x.io NOW'') (str ''BLACKOUT'') [str ''now''] True (\<lambda>i. 0)
    = Inr ([9608, 9608, 9608, 9608, 32, 9608, 9608, 9608, 9608, 9608, 9608, 9608, 9608, 32,
            9608, 9608, 9608],
        \<lparr>k_version = str ''1.0'',
         k_hash = H [226, 150, 136, 226, 150, 136, 226, 150, 136, 226, 150, 136, 32,
                     226, 150, 136, 226, 150, 136, 226, 150, 136, 226, 150, 136,
                     226, 150, 136, 226, 150, 136, 226, 150, 136, 226, 150, 136, 32,
                     226, 150, 136, 226, 150, 136, 226, 150, 136],
         k_restorations = [\<lparr>r_pos = 0, r_text = str ''Mail'', r_len = 4\<rparr>,
                           \<lparr>r_pos = 5, r_text = str ''bob@x.io'', r_len = 8\<rparr>,
                           \<lparr>r_pos = 14, r_text = str ''NOW'', r_len = 3\<rparr>]\<rparr>)
    \<and> list_all2
        (token_at (str ''BLACKOUT'')
           [9608, 9608, 9608, 9608, 32, 9608, 9608, 9608, 9608, 9608, 9608, 9608, 9608, 32,
            9608, 9608, 9608])
        [\<lparr>r_pos = 0, r_text = str ''Mail'', r_len = 4\<rparr>,
         \<lparr>r_pos = 5, r_text = str ''bob@x.io'', r_len = 8\<rparr>,
         \<lparr>r_pos = 14, r_text = str ''NOW'', r_len = 3\<rparr>]
        (find_matches ascii_db (str ''Mail bob@x.io NOW'') [str ''now''] True)"
proof
  fix H
  from style_length_invariants
    [of "[]" "\<lambda>i. 0" 0 ascii_db H "str ''Mail bob@x.io NOW''" "str ''BLACKOUT''" "[str ''now'']" True
        "\<lambda>i. 0"
        "[9608, 9608, 9608, 9608, 32, 9608, 9608, 9608, 9608, 9608, 9608, 9608, 9608, 32,
          9608, 9608, 9608]"
        "\<lparr>k_version = str ''1.0'',
          k_hash = H [226, 150, 136, 226, 150, 136, 226, 150, 136, 226, 150, 136, 32,
                      226, 150, 136, 226, 150, 136, 226, 150, 136, 226, 150, 136,
                      226, 150, 136, 226, 150, 136, 226, 150, 136, 226, 150, 136, 32,
                      226, 150, 136, 226, 150, 136, 226, 150, 136],
          k_restorations = [\<lparr>r_pos = 0, r_text = str ''Mail'', r_len = 4\<rparr>,
                            \<lparr>r_pos = 5, r_text = str ''bob@x.io'', r_len = 8\<rparr>,
                            \<lparr>r_pos = 14, r_text = str ''NOW'', r_len = 3\<rparr>]\<rparr>"]
    blackout_example [of H "\<lambda>i. 0"]
  show "redact ascii_db H (str ''Mail bob@x.io NOW'') (str ''BLACKOUT'') [str ''now''] True (\<lambda>i. 0)
    = Inr ([9608, 9608, 9608, 9608, 32, 9608, 9608, 9608, 9608, 9608, 9608, 9608, 9608, 32,
            9608, 9608, 9608],
        \<lparr>k_version = str ''1.0'',
         k_hash = H [226, 150, 136, 226, 150, 136, 226, 150, 136, 226, 150, 136, 32,
                     226, 150, 136, 226, 150, 136, 226, 150, 136, 226, 150, 136,
                     226, 150, 136, 226, 150, 136, 226, 150, 136, 226, 150, 136, 32,
                     226, 150, 136, 226, 150, 136, 226, 150, 136],
         k_restorations = [\<lparr>r_pos = 0, r_text = str ''Mail'', r_len = 4\<rparr>,
                           \<lparr>r_pos = 5, r_text = str ''bob@x.io'', r_len = 8\<rparr>,
                           \<lparr>r_pos = 14, r_text = str ''NOW'', r_len = 3\<rparr>]\<rparr>)
    \<and> list_all2
        (token_at (str ''BLACKOUT'')
           [9608, 9608, 9608, 9608, 32, 9608, 9608, 9608, 9608, 9608, 9608, 9608, 9608, 32,
            9608, 9608, 9608])
        [\<lparr>r_pos = 0, r_text = str ''Mail'', r_len = 4\<rparr>,
         \<lparr>r_pos = 5, r_text = str ''bob@x.io'', r_len = 8\<rparr>,
         \<lparr>r_pos = 14, r_text = str ''NOW'', r_len = 3\<rparr>]
        (find_matches ascii_db (str ''Mail bob@x.io NOW'') [str ''now''] True)"
    by simp
qed

lemma substitute_unrecognized:
  "style \<noteq> str ''BLACKOUT'' \<Longrightarrow> style \<noteq> str ''VECTURE_NOISE'' \<Longrightarrow>
   substitute style original tape k = substitute (str ''CLASSIC'') original tape k"
  by (simp add: substitute_def str_def)

lemma redact_loop_unrecognized:
  "style \<noteq> str ''BLACKOUT'' \<Longrightarrow> style \<noteq> str ''VECTURE_NOISE'' \<Longrightarrow>
   redact_loop t style tape ms st = redact_loop t (str ''CLASSIC'') tape ms st"
proof (induction ms arbitrary: st)
  case Nil
  show ?case by simp
next
  case (Cons m ms)
  obtain res keys cur k where st: "st = (res, keys, cur, k)"
    by (cases st) auto
  show ?case
    unfolding st
    by (simp add: Let_def Cons.IH [OF Cons.prems]
        substitute_unrecognized [OF Cons.prems, of "m_text m" tape k])
qed

text \<open>
  C10. A style other than \<open>"BLACKOUT"\<close> and \<open>"VECTURE_NOISE"\<close> is treated as
  \<open>"CLASSIC"\<close>: \<open>redact\<close> returns what it returns for \<open>"CLASSIC"\<close>, every replacement
  is the literal \<open>[REDACTED]\<close>, and no error comes from the style: the only failure
  is \<open>UnicodeEncodeError\<close> on a text without UTF-8 encoding, and a text that has one
  always gives a pair.
\<close>

theorem unrecognized_style_is_classic:
  "style \<noteq> str ''BLACKOUT'' \<and> style \<noteq> str ''VECTURE_NOISE'' \<longrightarrow>
     redact U H t style W C tape = redact U H t (str ''CLASSIC'') W C tape
     \<and> fst (substitute style original tape k) = str ''[REDACTED]''
     \<and> (\<forall>e. redact U H t style W C tape = Inl e \<longrightarrow> e = UnicodeEncodeError \<and> utf8_encode t = None)
     \<and> (utf8_encode t \<noteq> None \<longrightarrow> (\<exists>rt key. redact U H t style W C tape = Inr (rt, key)))"
  using redact_Inl [of U H t style W C tape] redact_total [of t U H style W C tape]
  by (auto simp: redact_def redact_loop_unrecognized substitute_def redacted_token_def)

theorem unrecognized_style_is_classic_witness:
  "\<forall>H tape. str ''classic'' \<noteq> str ''BLACKOUT'' \<and> str ''classic'' \<noteq> str ''VECTURE_NOISE''
     \<and> redact ascii_db H (str ''Contact john@example.com on 2023-01-05.'') (str ''classic'') [] False tape
       = Inr (str ''Contact [REDACTED] on [REDACTED].'',
           \<lparr>k_version = str ''1.0'', k_hash = H (str ''Contact [REDACTED] on [REDACTED].''),
            k_restorations = [\<lparr>r_pos = 8, r_text = str ''john@example.com'', r_len = 10\<rparr>,
                              \<lparr>r_pos = 22, r_text = str ''2023-01-05'', r_len = 10\<rparr>]\<rparr>)"
proof (intro allI)
  fix H tape
  have n: "str ''classic'' \<noteq> str ''BLACKOUT''" "str ''classic'' \<noteq> str ''VECTURE_NOISE''"
    by (simp_all add: str_def)
  from unrecognized_style_is_classic
    [of "str ''classic''" ascii_db H "str ''Contact john@example.com on 2023-01-05.''" "[]" False tape]
    example_redact [OF ascii_faithful_ascii_db, of H tape] n
  show "str ''classic'' \<noteq> str ''BLACKOUT'' \<and> str ''classic'' \<noteq> str ''VECTURE_NOISE''
     \<and> redact ascii_db H (str ''Contact john@example.com on 2023-01-05.'') (str ''classic'') [] False tape
       = Inr (str ''Contact [REDACTED] on [REDACTED].'',
           \<lparr>k_version = str ''1.0'', k_hash = H (str ''Contact [REDACTED] on [REDACTED].''),
            k_restorations = [\<lparr>r_pos = 8, r_text = str ''john@example.com'', r_len = 10\<rparr>,
                              \<lparr>r_pos = 22, r_text = str ''2023-01-05'', r_len = 10\<rparr>]\<rparr>)"
    by simp
qed

section \<open>The key codec: what a failed parse raises\<close>

lemma marker_colon: "58 \<in> set marker"
  by (simp add: marker_def str_def)

lemma marker_nonempty: "marker \<noteq> []"
  by (simp add: marker_def str_def)

lemma remove_marker_id: "58 \<notin> set s \<Longrightarrow> remove_marker s = s"
proof (induction s rule: remove_marker.induct)
  case 1
  show ?case by simp
next
  case (2 c cs)
  have "take (length marker) (c # cs) \<noteq> marker"
  proof
    assume "take (length marker) (c # cs) = marker"
    then have "set marker \<subseteq> set (c # cs)"
      by (metis set_take_subset)
    with marker_colon "2.prems" show False by blast
  qed
  with 2 show ?case by simp
qed

lemma remove_marker_prefix: "remove_marker (marker @ s) = remove_marker s"
proof -
  obtain c cs where m: "marker @ s = c # cs"
    using marker_nonempty by (cases "marker @ s") auto
  have "take (length marker) (c # cs) = marker" "drop (length marker) (c # cs) = s"
    using m [symmetric] by simp_all
  then show ?thesis
    unfolding m by simp
qed

lemma b64_no_colon: "list_all b64_alphabet s \<Longrightarrow> 58 \<notin> set s"
  by (auto simp: list_all_iff b64_alphabet_def char_classes)

lemma b64_ascii: "list_all b64_alphabet s \<Longrightarrow> ascii_decode s = Some s"
  by (auto simp: list_all_iff b64_alphabet_def ascii_decode_def char_classes)

lemma codec_packed:
  assumes "utf8_encode (json_dumps L K) = Some raw"
    and "json_loads_bytes L raw = Some K"
    and "zlib_decompress L (zlib_compress L raw) = Some raw"
    and "list_all b64_alphabet (b64encode L (zlib_compress L raw))"
    and "b64decode L (b64encode L (zlib_compress L raw)) = Some (zlib_compress L raw)"
  shows "obfuscate_key L K = Inr (marker @ b64encode L (zlib_compress L raw))"
    and "deobfuscate_key L (marker @ b64encode L (zlib_compress L raw)) = Inr K"
proof -
  show "obfuscate_key L K = Inr (marker @ b64encode L (zlib_compress L raw))"
    using assms(1) b64_ascii [OF assms(4)] by (simp add: obfuscate_key_def Let_def)
  have "remove_marker (marker @ b64encode L (zlib_compress L raw)) = b64encode L (zlib_compress L raw)"
    using remove_marker_id [OF b64_no_colon [OF assms(4)]] by (simp add: remove_marker_prefix)
  then show "deobfuscate_key L (marker @ b64encode L (zlib_compress L raw)) = Inr K"
    using assms(2,3,5) by (simp add: deobfuscate_key_def)
qed

lemma codec_plain:
  assumes "json_loads L (json_dumps L K) = Loaded K"
    and "take (length marker) (json_dumps L K) \<noteq> marker"
  shows "deobfuscate_key L (json_dumps L K) = Inr K"
  using assms by (simp add: deobfuscate_key_def)

lemma deobfuscate_marker_branch:
  assumes "take (length marker) s = marker"
  shows "deobfuscate_key L s = Inl KeyFormatError \<or> (\<exists>k. deobfuscate_key L s = Inr k)"
  using assms by (auto simp: deobfuscate_key_def split: option.splits)

lemma deobfuscate_plain_branch:
  assumes "take (length marker) s \<noteq> marker"
  shows "deobfuscate_key L s =
     (case json_loads L s of
        Loaded key \<Rightarrow> Inr key
      | JSONDecodeError \<Rightarrow> Inl KeyFormatError
      | OtherException \<Rightarrow> Inl EscapedException)"
  using assms by (simp add: deobfuscate_key_def)

text \<open>
  C7. The specification asks for a \<open>KeyFormatError\<close> whenever the marker is absent and
  the direct parse fails. \<open>deobfuscate_key\<close> does so for a \<open>json.JSONDecodeError\<close> only: when
  \<open>json.loads\<close> fails with another exception on a text without the marker, that
  exception leaves \<open>deobfuscate_key\<close> unwrapped. The branch for a text with the marker
  catches every exception, and never lets one escape.
\<close>

theorem plain_parse_failure_escapes:
  "(take (length marker) s \<noteq> marker \<and> json_loads L s = OtherException \<longrightarrow>
      deobfuscate_key L s = Inl EscapedException)
   \<and> (take (length marker) s \<noteq> marker \<and> json_loads L s = JSONDecodeError \<longrightarrow>
      deobfuscate_key L s = Inl KeyFormatError)
   \<and> (take (length marker) s = marker \<longrightarrow>
      deobfuscate_key L s = Inl KeyFormatError \<or> (\<exists>k. deobfuscate_key L s = Inr k))"
  using deobfuscate_marker_branch [of s L] deobfuscate_plain_branch [of s L]
  by auto

theorem plain_parse_failure_escapes_witness:
  "take (length marker) (replicate 100000 91) \<noteq> marker
   \<and> json_loads sample_libs (replicate 100000 91) = OtherException
   \<and> deobfuscate_key sample_libs (replicate 100000 91) = Inl EscapedException
   \<and> take (length marker) (str ''['') \<noteq> marker
   \<and> json_loads sample_libs (str ''['') = JSONDecodeError
   \<and> deobfuscate_key sample_libs (str ''['') = Inl KeyFormatError
   \<and> take (length marker) (str ''VECTURE_KEY:????'') = marker
   \<and> deobfuscate_key sample_libs (str ''VECTURE_KEY:????'') = Inl KeyFormatError"
proof -
  have m: "take (length marker) (replicate 100000 91) \<noteq> marker"
    "take (length marker) (str ''['') \<noteq> marker"
    "take (length marker) (str ''VECTURE_KEY:????'') = marker"
    by (simp_all add: marker_def str_def)
  have ne: "replicate 100000 (91::nat) \<noteq> str ''{}''"
  proof
    assume "replicate 100000 (91::nat) = str ''{}''"
    then have "length (replicate 100000 (91::nat)) = length (str ''{}'')"
      by simp
    then show False by (simp add: str_def)
  qed
  have j: "json_loads sample_libs (replicate 100000 91) = OtherException"
    "json_loads sample_libs (str ''['') = JSONDecodeError"
    using ne by (simp_all add: sample_libs_def list_all_iff) (simp add: str_def)
  have k: "deobfuscate_key sample_libs (str ''VECTURE_KEY:????'') = Inl KeyFormatError"
    by (simp add: deobfuscate_key_def sample_libs_def marker_def str_def)
  from plain_parse_failure_escapes [of "replicate 100000 91" sample_libs] m(1) j(1)
  have a: "deobfuscate_key sample_libs (replicate 100000 91) = Inl EscapedException"
    by blast
  from plain_parse_failure_escapes [of "str ''[''" sample_libs] m(2) j(2)
  have b: "deobfuscate_key sample_libs (str ''['') = Inl KeyFormatError"
    by blast
  from m j k a b show ?thesis by (intro conjI)
qed

end
